theory Spec2Isabelle
  imports Complex_Main
begin

section \<open>The ECMAScript numbers and dates the gap engine computes with\<close>

text \<open>
  \<^verbatim>\<open>gaps.ts\<close> works on \<^verbatim>\<open>Date\<close> objects built from strings by \<^verbatim>\<open>Number\<close> and
  \<^verbatim>\<open>Date.UTC\<close>. A Number is NaN, an infinity or a finite value. \<^verbatim>\<open>Number(part)\<close> itself
  (ECMAScript's StringToNumber) is not code of the repository: every function below that
  parses takes it as the parameter \<open>num\<close>, and the theorems hold for each such function.
  The parts come from a split at every \<^verbatim>\<open>-\<close>, so that \<^verbatim>\<open>Number\<close> is never negative on them.
  The calendar functions are those of the ECMAScript specification (Day, DayFromYear,
  YearFromTime, MonthFromTime, DateFromTime, MakeDay, TimeClip), on integers.
\<close>

datatype jsnum = NaN | PosInf | NegInf | Fin real

definition falsy :: "jsnum \<Rightarrow> bool" where
  \<comment> \<open>\<^verbatim>\<open>!x\<close> on a Number: true for NaN and for zero.\<close>
  "falsy n = (n = NaN \<or> n = Fin 0)"

definition trunc :: "real \<Rightarrow> int" where
  \<comment> \<open>ToIntegerOrInfinity on a finite value: rounding towards zero.\<close>
  "trunc x = (if 0 \<le> x then \<lfloor>x\<rfloor> else \<lceil>x\<rceil>)"

definition jsnum_pred :: "jsnum \<Rightarrow> jsnum" where
  \<comment> \<open>\<^verbatim>\<open>month - 1\<close>. The difference of binary64 values is rounded: for \<open>0 < x \<le> 2^-54\<close> it is
      exactly \<open>-1\<close>; everywhere else the rounded difference has the truncation and the
      finiteness of the exact one, which is all that \<^verbatim>\<open>Date.UTC\<close> reads of it.\<close>
  "jsnum_pred n = (case n of
      Fin x \<Rightarrow> (if 0 < x \<and> x \<le> 1 / 2 ^ 54 then Fin (- 1) else Fin (x - 1))
    | _ \<Rightarrow> n)"

definition jsnum_add :: "jsnum \<Rightarrow> int \<Rightarrow> jsnum" where
  \<comment> \<open>\<^verbatim>\<open>n + k\<close> for an integer constant \<open>k\<close>; the code applies it to integer-valued
      Numbers only (the results of the \<^verbatim>\<open>getUTC...\<close> methods), where it is exact.\<close>
  "jsnum_add n k = (case n of Fin x \<Rightarrow> Fin (x + of_int k) | _ \<Rightarrow> n)"

definition msPerDay :: int where
  "msPerDay = 86400000"

definition DaysInYear :: "int \<Rightarrow> int" where
  "DaysInYear y =
     (if y mod 4 \<noteq> 0 then 365 else if y mod 100 \<noteq> 0 then 366
      else if y mod 400 \<noteq> 0 then 365 else 366)"

definition InLeapYear :: "int \<Rightarrow> int" where
  "InLeapYear y = (if DaysInYear y = 366 then 1 else 0)"

definition DayFromYear :: "int \<Rightarrow> int" where
  "DayFromYear y =
     365 * (y - 1970) + (y - 1969) div 4 - (y - 1901) div 100 + (y - 1601) div 400"

text \<open>
  YearFromTime is "the largest integer \<open>y\<close> such that \<open>TimeFromYear y \<le> t\<close>": a search
  upwards from a year that begins on or before the day (\<open>YearFromDay_spec\<close> below).
\<close>

function yearSearch :: "int \<Rightarrow> int \<Rightarrow> int" where
  "yearSearch d y = (if DayFromYear (y + 1) \<le> d then yearSearch d (y + 1) else y)"
  by pat_completeness auto

definition YearFromDay :: "int \<Rightarrow> int" where
  "YearFromDay d =
     yearSearch d (if 0 \<le> d then 1970 + d div 366 else 1970 + d div 365)"

definition Day :: "int \<Rightarrow> int" where
  "Day t = t div msPerDay"

definition TimeWithinDay :: "int \<Rightarrow> int" where
  "TimeWithinDay t = t mod msPerDay"

definition YearFromTime :: "int \<Rightarrow> int" where
  "YearFromTime t = YearFromDay (Day t)"

definition DayWithinYear :: "int \<Rightarrow> int" where
  "DayWithinYear t = Day t - DayFromYear (YearFromTime t)"

definition daysBeforeMonth :: "int \<Rightarrow> int \<Rightarrow> int" where
  \<comment> \<open>The day within the year on which month \<open>m\<close> (0 = January) begins; \<open>leap\<close> is 0 or 1.\<close>
  "daysBeforeMonth leap m =
     (if m = 0 then 0 else if m = 1 then 31 else if m = 2 then 59 + leap
      else if m = 3 then 90 + leap else if m = 4 then 120 + leap
      else if m = 5 then 151 + leap else if m = 6 then 181 + leap
      else if m = 7 then 212 + leap else if m = 8 then 243 + leap
      else if m = 9 then 273 + leap else if m = 10 then 304 + leap
      else 334 + leap)"

definition monthOfDay :: "int \<Rightarrow> int \<Rightarrow> int" where
  "monthOfDay leap dwy =
     (if dwy < 31 then 0 else if dwy < 59 + leap then 1
      else if dwy < 90 + leap then 2 else if dwy < 120 + leap then 3
      else if dwy < 151 + leap then 4 else if dwy < 181 + leap then 5
      else if dwy < 212 + leap then 6 else if dwy < 243 + leap then 7
      else if dwy < 273 + leap then 8 else if dwy < 304 + leap then 9
      else if dwy < 334 + leap then 10 else 11)"

definition MonthFromTime :: "int \<Rightarrow> int" where
  "MonthFromTime t = monthOfDay (InLeapYear (YearFromTime t)) (DayWithinYear t)"

definition DateFromTime :: "int \<Rightarrow> int" where
  "DateFromTime t =
     DayWithinYear t + 1
       - daysBeforeMonth (InLeapYear (YearFromTime t)) (MonthFromTime t)"

definition MakeDay :: "int \<Rightarrow> int \<Rightarrow> int \<Rightarrow> int" where
  \<comment> \<open>The day number of the first of month \<open>m mod 12\<close> of year \<open>y + m div 12\<close>, plus \<open>dt - 1\<close>.\<close>
  "MakeDay y m dt =
     (let ym = y + m div 12; mn = m mod 12
      in DayFromYear ym + daysBeforeMonth (InLeapYear ym) mn + dt - 1)"

definition MakeFullYear :: "real \<Rightarrow> int" where
  "MakeFullYear y = (let t = trunc y in if 0 \<le> t \<and> t \<le> 99 then 1900 + t else t)"

text \<open>
  A \<^verbatim>\<open>Date\<close> object holds a time value in milliseconds, or NaN (an Invalid Date). Every
  \<^verbatim>\<open>Date\<close> that the code builds passes through \<open>TimeClip\<close>, which keeps the time values of
  at most 8.64e15 milliseconds in absolute value.
\<close>

datatype jsdate = InvalidDate | Date int

definition TimeClip :: "int \<Rightarrow> jsdate" where
  "TimeClip t = (if \<bar>t\<bar> > 8640000000000000 then InvalidDate else Date t)"

definition Date_UTC :: "jsnum \<Rightarrow> jsnum \<Rightarrow> jsnum \<Rightarrow> jsdate" where
  \<comment> \<open>\<^verbatim>\<open>new Date(Date.UTC(year, month, day))\<close>\<close>
  "Date_UTC year month day = (case (year, month, day) of
      (Fin y, Fin m, Fin d) \<Rightarrow>
         TimeClip (MakeDay (MakeFullYear y) (trunc m) (trunc d) * msPerDay)
    | _ \<Rightarrow> InvalidDate)"

definition getUTCFullYear :: "jsdate \<Rightarrow> jsnum" where
  "getUTCFullYear d = (case d of InvalidDate \<Rightarrow> NaN | Date t \<Rightarrow> Fin (of_int (YearFromTime t)))"

definition getUTCMonth :: "jsdate \<Rightarrow> jsnum" where
  "getUTCMonth d = (case d of InvalidDate \<Rightarrow> NaN | Date t \<Rightarrow> Fin (of_int (MonthFromTime t)))"

definition getUTCDate :: "jsdate \<Rightarrow> jsnum" where
  "getUTCDate d = (case d of InvalidDate \<Rightarrow> NaN | Date t \<Rightarrow> Fin (of_int (DateFromTime t)))"

definition setUTCDate :: "jsdate \<Rightarrow> jsnum \<Rightarrow> jsdate" where
  "setUTCDate d dt = (case (d, dt) of
      (Date t, Fin x) \<Rightarrow>
         TimeClip (MakeDay (YearFromTime t) (MonthFromTime t) (trunc x) * msPerDay
                   + TimeWithinDay t)
    | _ \<Rightarrow> InvalidDate)"

text \<open>
  Relational operators on two \<^verbatim>\<open>Date\<close> objects compare the time values as Numbers; every
  comparison with NaN is false.
\<close>

definition date_lt :: "jsdate \<Rightarrow> jsdate \<Rightarrow> bool" where
  "date_lt a b = (case (a, b) of (Date x, Date y) \<Rightarrow> x < y | _ \<Rightarrow> False)"

definition date_le :: "jsdate \<Rightarrow> jsdate \<Rightarrow> bool" where
  "date_le a b = (case (a, b) of (Date x, Date y) \<Rightarrow> x \<le> y | _ \<Rightarrow> False)"

definition date_gt :: "jsdate \<Rightarrow> jsdate \<Rightarrow> bool" where
  "date_gt a b = date_lt b a"

definition date_ge :: "jsdate \<Rightarrow> jsdate \<Rightarrow> bool" where
  "date_ge a b = date_le b a"

datatype error = RangeError | TypeError

definition digitChar :: "nat \<Rightarrow> char" where
  "digitChar d = ''0123456789'' ! (d mod 10)"

definition pad2 :: "nat \<Rightarrow> string" where
  "pad2 n = [digitChar (n div 10), digitChar n]"

definition pad4 :: "nat \<Rightarrow> string" where
  "pad4 n = [digitChar (n div 1000), digitChar (n div 100), digitChar (n div 10), digitChar n]"

definition pad6 :: "nat \<Rightarrow> string" where
  "pad6 n = [digitChar (n div 100000), digitChar (n div 10000), digitChar (n div 1000),
             digitChar (n div 100), digitChar (n div 10), digitChar n]"

definition isoDate :: "int \<Rightarrow> int \<Rightarrow> int \<Rightarrow> string" where
  \<comment> \<open>\<^verbatim>\<open>YYYY-MM-DD\<close> for a year from 0 to 9999, a month from 1 to 12 and a day.\<close>
  "isoDate y m d = pad4 (nat y) @ ''-'' @ pad2 (nat m) @ ''-'' @ pad2 (nat d)"

definition toISODate :: "int \<Rightarrow> string" where
  \<comment> \<open>The first ten characters of \<^verbatim>\<open>toISOString()\<close>: years 0 to 9999 print with four digits,
      every other year with a sign and six digits, which leaves no room for the day.\<close>
  "toISODate t =
     (let y = YearFromTime t; m = MonthFromTime t + 1; d = DateFromTime t
      in if 0 \<le> y \<and> y \<le> 9999 then isoDate y m d
         else (if y < 0 then ''-'' else ''+'') @ pad6 (nat \<bar>y\<bar>) @ ''-'' @ pad2 (nat m))"

section \<open>gaps.ts\<close>

fun splitDash :: "string \<Rightarrow> string list" where
  \<comment> \<open>\<^verbatim>\<open>value.split("-")\<close>\<close>
  "splitDash [] = [[]]"
| "splitDash (c # cs) =
     (if c = CHR ''-'' then [] # splitDash cs
      else (case splitDash cs of p # ps \<Rightarrow> (c # p) # ps | [] \<Rightarrow> [[c]]))"

definition parseDate :: "(string \<Rightarrow> jsnum) \<Rightarrow> string \<Rightarrow> jsdate option" where
  \<comment> \<open>A missing part is \<^verbatim>\<open>undefined\<close>, which is falsy; parts after the third are ignored.\<close>
  "parseDate num v = (case map num (splitDash v) of
      year # month # day # _ \<Rightarrow>
        (if falsy year \<or> falsy month \<or> falsy day then None
         else Some (Date_UTC year (jsnum_pred month) day))
    | _ \<Rightarrow> None)"

definition formatDate :: "jsdate \<Rightarrow> error + string" where
  \<comment> \<open>\<^verbatim>\<open>toISOString\<close> throws a RangeError on an Invalid Date.\<close>
  "formatDate d = (case d of InvalidDate \<Rightarrow> Inl RangeError | Date t \<Rightarrow> Inr (toISODate t))"

definition addDays :: "jsdate \<Rightarrow> int \<Rightarrow> jsdate" where
  "addDays d days = setUTCDate d (jsnum_add (getUTCDate d) days)"

definition clampDate :: "jsdate \<Rightarrow> jsdate \<Rightarrow> jsdate \<Rightarrow> jsdate" where
  "clampDate d mn mx = (if date_lt d mn then mn else if date_gt d mx then mx else d)"

record Address =
  id_address :: string
  line1 :: string
  line2 :: "string option"
  town :: string
  county :: "string option"
  postcode :: string
  country :: string
  startDate :: string
  endDate :: "string option"
  createdAt :: string
  updatedAt :: string

record DateRange =
  range_start :: string
  range_end :: string

record Gap =
  gap_start :: string
  gap_end :: string
  isLeading :: bool
  isTrailing :: bool

text \<open>An element of \<^verbatim>\<open>ranges\<close> and of \<^verbatim>\<open>merged\<close>: \<^verbatim>\<open>{ start: Date; end: Date }\<close>.\<close>

record Interval =
  iv_start :: jsdate
  iv_end :: jsdate

definition addressRange ::
  "(string \<Rightarrow> jsnum) \<Rightarrow> DateRange \<Rightarrow> jsdate \<Rightarrow> jsdate \<Rightarrow> Address \<Rightarrow> Interval option" where
  \<comment> \<open>The callback of \<^verbatim>\<open>addresses.map\<close>; \<open>None\<close> is the \<^verbatim>\<open>null\<close> that the filter drops.\<close>
  "addressRange num rng rangeStart rangeEnd address =
     (case (parseDate num (startDate address),
            parseDate num (case endDate address of None \<Rightarrow> range_end rng | Some e \<Rightarrow> e)) of
        (Some s, Some e) \<Rightarrow>
          (if date_lt e s then None
           else Some \<lparr>iv_start = clampDate s rangeStart rangeEnd,
                      iv_end = clampDate e rangeStart rangeEnd\<rparr>)
      | _ \<Rightarrow> None)"

definition compareStart :: "Interval \<Rightarrow> Interval \<Rightarrow> int" where
  \<comment> \<open>\<^verbatim>\<open>a.start.getTime() - b.start.getTime()\<close>; a NaN result counts as \<open>+0\<close> in a sort.\<close>
  "compareStart a b = (case (iv_start a, iv_start b) of
      (Date x, Date y) \<Rightarrow> x - y
    | _ \<Rightarrow> 0)"

text \<open>
  \<^verbatim>\<open>Array.prototype.sort\<close> is stable, and for a consistent comparator its result is the
  one stable ordering, which insertion sort computes. When a start is an Invalid Date the
  comparator is not consistent and ECMAScript leaves the order to the implementation; the
  model then still is insertion sort, one of the orders an implementation may return.
  That the engine returns normally is proved from the elements of the sorted array alone,
  and the results computed below for a list with an Invalid Date start are given for each
  order of its intervals.
\<close>

fun insertRange :: "Interval \<Rightarrow> Interval list \<Rightarrow> Interval list" where
  "insertRange x [] = [x]"
| "insertRange x (y # ys) =
     (if compareStart x y \<le> 0 then x # y # ys else y # insertRange x ys)"

definition sortRanges :: "Interval list \<Rightarrow> Interval list" where
  "sortRanges xs = foldr insertRange xs []"

definition mergeStep :: "Interval list \<Rightarrow> Interval \<Rightarrow> Interval list" where
  \<comment> \<open>One round of the merging loop: \<open>merged\<close> before and after \<open>rangeItem\<close>.\<close>
  "mergeStep merged rangeItem =
     (if merged = [] then [rangeItem]
      else let lst = last merged; contiguousEnd = addDays (iv_end lst) 1
           in if date_le (iv_start rangeItem) contiguousEnd
              then (if date_gt (iv_end rangeItem) (iv_end lst)
                    then butlast merged @ [lst\<lparr>iv_end := iv_end rangeItem\<rparr>]
                    else merged)
              else merged @ [rangeItem])"

definition mkGap :: "jsdate \<Rightarrow> jsdate \<Rightarrow> bool \<Rightarrow> bool \<Rightarrow> error + Gap" where
  \<comment> \<open>A gap object whose bounds are written with \<^verbatim>\<open>formatDate\<close>.\<close>
  "mkGap s e leading trailing =
     (case formatDate s of Inl err \<Rightarrow> Inl err | Inr fs \<Rightarrow>
        (case formatDate e of Inl err \<Rightarrow> Inl err | Inr fe \<Rightarrow>
           Inr \<lparr>gap_start = fs, gap_end = fe, isLeading = leading, isTrailing = trailing\<rparr>))"

definition leadingGap :: "Interval list \<Rightarrow> jsdate \<Rightarrow> error + Gap list" where
  "leadingGap merged rangeStart = (case merged of
      [] \<Rightarrow> Inl TypeError
    | first # _ \<Rightarrow>
        (if date_gt (iv_start first) rangeStart
         then (case mkGap rangeStart (addDays (iv_start first) (- 1)) True False of
                 Inl err \<Rightarrow> Inl err | Inr g \<Rightarrow> Inr [g])
         else Inr []))"

fun internalGaps :: "Interval list \<Rightarrow> error + Gap list" where
  \<comment> \<open>The loop over \<open>index\<close>: \<open>current = merged[index]\<close> and \<open>next = merged[index + 1]\<close>.\<close>
  "internalGaps (current # next # rest) =
     (let gapStart = addDays (iv_end current) 1; gapEnd = addDays (iv_start next) (- 1)
      in if date_le gapStart gapEnd
         then (case mkGap gapStart gapEnd False False of
                 Inl err \<Rightarrow> Inl err
               | Inr g \<Rightarrow> (case internalGaps (next # rest) of
                            Inl err \<Rightarrow> Inl err | Inr gs \<Rightarrow> Inr (g # gs)))
         else internalGaps (next # rest))"
| "internalGaps _ = Inr []"

definition trailingGap :: "Interval list \<Rightarrow> jsdate \<Rightarrow> error + Gap list" where
  "trailingGap merged rangeEnd =
     (if merged = [] then Inl TypeError
      else let lastRange = last merged
           in if date_lt (iv_end lastRange) rangeEnd
              then (case mkGap (addDays (iv_end lastRange) 1) rangeEnd False True of
                      Inl err \<Rightarrow> Inl err | Inr g \<Rightarrow> Inr [g])
              else Inr [])"

definition emitGaps :: "Interval list \<Rightarrow> jsdate \<Rightarrow> jsdate \<Rightarrow> error + Gap list" where
  "emitGaps merged rangeStart rangeEnd =
     (case leadingGap merged rangeStart of Inl err \<Rightarrow> Inl err | Inr g1 \<Rightarrow>
        (case internalGaps merged of Inl err \<Rightarrow> Inl err | Inr g2 \<Rightarrow>
           (case trailingGap merged rangeEnd of Inl err \<Rightarrow> Inl err | Inr g3 \<Rightarrow>
              Inr (g1 @ g2 @ g3))))"

definition addressRanges ::
  "(string \<Rightarrow> jsnum) \<Rightarrow> DateRange \<Rightarrow> jsdate \<Rightarrow> jsdate \<Rightarrow> Address list \<Rightarrow> Interval list" where
  \<comment> \<open>\<^verbatim>\<open>ranges\<close>: map, filter, sort\<close>
  "addressRanges num rng rangeStart rangeEnd addresses =
     sortRanges (List.map_filter (addressRange num rng rangeStart rangeEnd) addresses)"

definition getCoverageGaps ::
  "(string \<Rightarrow> jsnum) \<Rightarrow> Address list \<Rightarrow> DateRange \<Rightarrow> error + Gap list" where
  "getCoverageGaps num addresses rng =
     (case (parseDate num (range_start rng), parseDate num (range_end rng)) of
        (Some rangeStart, Some rangeEnd) \<Rightarrow>
          (if date_lt rangeEnd rangeStart then Inr []
           else let ranges = addressRanges num rng rangeStart rangeEnd addresses
                in if ranges = []
                   then Inr [\<lparr>gap_start = range_start rng, gap_end = range_end rng,
                              isLeading = True, isTrailing = True\<rparr>]
                   else emitGaps (foldl mergeStep [] ranges) rangeStart rangeEnd)
      | _ \<Rightarrow> Inr [])"

definition strict_neq :: "jsnum \<Rightarrow> jsnum \<Rightarrow> bool" where
  \<comment> \<open>\<^verbatim>\<open>a !== b\<close> on Numbers: NaN differs from every Number, itself included.\<close>
  "strict_neq a b = (a = NaN \<or> b = NaN \<or> a \<noteq> b)"

definition subtractYears :: "jsdate \<Rightarrow> int \<Rightarrow> jsdate" where
  "subtractYears d years =
     (let year = jsnum_add (getUTCFullYear d) (- years);
          month = getUTCMonth d;
          day = getUTCDate d;
          candidate = Date_UTC year month day
      in if strict_neq (getUTCMonth candidate) month
         then Date_UTC year (jsnum_add month 1) (Fin 0)
         else candidate)"

definition getLastThreeYearsRange :: "jsdate \<Rightarrow> error + DateRange" where
  "getLastThreeYearsRange today =
     (let end_date = Date_UTC (getUTCFullYear today) (getUTCMonth today) (getUTCDate today);
          start_date = subtractYears end_date 3
      in case formatDate start_date of Inl err \<Rightarrow> Inl err | Inr fs \<Rightarrow>
           (case formatDate end_date of Inl err \<Rightarrow> Inl err | Inr fe \<Rightarrow>
              Inr \<lparr>range_start = fs, range_end = fe\<rparr>))"

section \<open>The export routes\<close>

text \<open>
  The ZIP export route and the PDF export route carry the same two functions: a copy of
  \<^verbatim>\<open>parseDate\<close>, word for word that of \<^verbatim>\<open>gaps.ts\<close>, and the filter
  \<^verbatim>\<open>addressOverlapsRange\<close>, which they apply to the addresses of the store.
\<close>

definition addressOverlapsRange ::
  "(string \<Rightarrow> jsnum) \<Rightarrow> string \<Rightarrow> string option \<Rightarrow> string \<Rightarrow> string \<Rightarrow> bool" where
  "addressOverlapsRange num startDate' endDate' rangeStart rangeEnd =
     (case (parseDate num startDate',
            parseDate num (case endDate' of None \<Rightarrow> rangeEnd | Some e \<Rightarrow> e),
            parseDate num rangeStart, parseDate num rangeEnd) of
        (Some addressStart, Some addressEnd, Some start, Some end') \<Rightarrow>
          date_le addressStart end' \<and> date_ge addressEnd start
      | _ \<Rightarrow> False)"

section \<open>storage.ts\<close>

record DocumentMeta =
  id_document :: string
  addressId :: string
  originalName :: string
  storedName :: string
  mimeType :: string
  size_document :: nat
  uploadedAt :: string

record Store =
  addresses :: "Address list"
  documents :: "DocumentMeta list"

text \<open>
  The file system and the module state that the store works on. The snapshot file is
  missing, or cannot be read as a snapshot (\<^verbatim>\<open>readFile\<close> fails with another error than
  ENOENT, or \<^verbatim>\<open>JSON.parse\<close> throws), or holds an object whose two members may be absent.
  An upload file is absent from the map, or present; \<^verbatim>\<open>unlink\<close> removes a present file
  unless it is \<open>Undeletable\<close>, where it fails with an error other than ENOENT. Whether
  \<^verbatim>\<open>writeFile\<close> succeeds on the snapshot file is a flag of the world. \<^verbatim>\<open>mkdir\<close> with
  \<^verbatim>\<open>recursive\<close> is taken to succeed. \<open>emptyStore\<close> is the module-level object of that name:
  \<^verbatim>\<open>readStore\<close> returns the object itself when the file is missing, so that a caller who
  assigns into the result changes it.
\<close>

datatype fs_error = ENOENT | OtherError

datatype store_file =
  Missing | Unreadable | Content "Address list option" "DocumentMeta list option"

datatype upload_file = Removable | Undeletable

record World =
  store_file :: store_file
  store_writable :: bool
  uploads :: "string \<rightharpoonup> upload_file"
  emptyStore :: Store

definition getUploadPath :: "DocumentMeta \<Rightarrow> string" where
  \<comment> \<open>\<^verbatim>\<open>path.join(uploadsDir, document.storedName)\<close>, for a stored name without separators\<close>
  "getUploadPath document = ''data/uploads/'' @ storedName document"

definition writeStore :: "Store \<Rightarrow> World \<Rightarrow> (fs_error + unit) \<times> World" where
  "writeStore store w =
     (if store_writable w
      then (Inr (), w\<lparr>store_file := Content (Some (addresses store)) (Some (documents store))\<rparr>)
      else (Inl OtherError, w))"

definition readStore :: "World \<Rightarrow> (fs_error + Store \<times> bool) \<times> World" where
  \<comment> \<open>The flag of the result tells that the store returned is the object \<open>emptyStore\<close>.\<close>
  "readStore w = (case store_file w of
      Content a d \<Rightarrow>
        (Inr (\<lparr>addresses = (case a of None \<Rightarrow> [] | Some xs \<Rightarrow> xs),
               documents = (case d of None \<Rightarrow> [] | Some xs \<Rightarrow> xs)\<rparr>, False), w)
    | Missing \<Rightarrow>
        (case writeStore (emptyStore w) w of
           (Inl e, w') \<Rightarrow> (Inl e, w')
         | (Inr _, w') \<Rightarrow> (Inr (emptyStore w, True), w'))
    | Unreadable \<Rightarrow> (Inl OtherError, w))"

text \<open>
  The second argument of \<^verbatim>\<open>updateAddress\<close>, of type
  \<^verbatim>\<open>Partial<Omit<Address, "id" | "createdAt" | "updatedAt">>\<close>: for each of the eight fields,
  \<open>None\<close> when the key is absent and \<open>Some v\<close> when it is supplied with the value \<open>v\<close>. An
  optional field can be supplied with the value \<^verbatim>\<open>undefined\<close> (\<open>Some None\<close>). A required field
  supplied with \<^verbatim>\<open>undefined\<close>, which TypeScript admits without
  \<^verbatim>\<open>exactOptionalPropertyTypes\<close>, would give a result outside the type \<^verbatim>\<open>Address\<close> and is not
  part of the model.
\<close>

record AddressUpdates =
  u_line1 :: "string option"
  u_line2 :: "string option option"
  u_town :: "string option"
  u_county :: "string option option"
  u_postcode :: "string option"
  u_country :: "string option"
  u_startDate :: "string option"
  u_endDate :: "string option option"

definition spreadUpdates :: "Address \<Rightarrow> AddressUpdates \<Rightarrow> string \<Rightarrow> Address" where
  \<comment> \<open>\<^verbatim>\<open>{ ...existing, ...updates, updatedAt: now }\<close>\<close>
  "spreadUpdates existing updates now =
     existing\<lparr>
       line1 := (case u_line1 updates of None \<Rightarrow> line1 existing | Some v \<Rightarrow> v),
       line2 := (case u_line2 updates of None \<Rightarrow> line2 existing | Some v \<Rightarrow> v),
       town := (case u_town updates of None \<Rightarrow> town existing | Some v \<Rightarrow> v),
       county := (case u_county updates of None \<Rightarrow> county existing | Some v \<Rightarrow> v),
       postcode := (case u_postcode updates of None \<Rightarrow> postcode existing | Some v \<Rightarrow> v),
       country := (case u_country updates of None \<Rightarrow> country existing | Some v \<Rightarrow> v),
       startDate := (case u_startDate updates of None \<Rightarrow> startDate existing | Some v \<Rightarrow> v),
       endDate := (case u_endDate updates of None \<Rightarrow> endDate existing | Some v \<Rightarrow> v),
       updatedAt := now\<rparr>"

fun findIndex :: "('a \<Rightarrow> bool) \<Rightarrow> 'a list \<Rightarrow> nat option" where
  \<comment> \<open>\<open>None\<close> is the \<open>-1\<close> of \<^verbatim>\<open>Array.prototype.findIndex\<close>.\<close>
  "findIndex P [] = None"
| "findIndex P (x # xs) =
     (if P x then Some 0 else map_option Suc (findIndex P xs))"

definition updateAddress ::
  "string \<Rightarrow> AddressUpdates \<Rightarrow> string \<Rightarrow> World \<Rightarrow> (fs_error + Address option) \<times> World" where
  \<comment> \<open>\<open>now\<close> is \<^verbatim>\<open>new Date().toISOString()\<close>; \<open>Inr None\<close> is the \<^verbatim>\<open>null\<close> for an unknown id.\<close>
  "updateAddress ident updates now w =
     (case readStore w of
        (Inl e, w1) \<Rightarrow> (Inl e, w1)
      | (Inr (store, shared), w1) \<Rightarrow>
          (case findIndex (\<lambda>address. id_address address = ident) (addresses store) of
             None \<Rightarrow> (Inr None, w1)
           | Some index \<Rightarrow>
               let updated = spreadUpdates (addresses store ! index) updates now;
                   store' = store\<lparr>addresses := (addresses store)[index := updated]\<rparr>;
                   w2 = (if shared then w1\<lparr>emptyStore := store'\<rparr> else w1)
               in case writeStore store' w2 of
                    (Inl e, w3) \<Rightarrow> (Inl e, w3)
                  | (Inr _, w3) \<Rightarrow> (Inr (Some updated), w3)))"

definition unlink :: "string \<Rightarrow> World \<Rightarrow> (fs_error + unit) \<times> World" where
  "unlink filePath w = (case uploads w filePath of
      None \<Rightarrow> (Inl ENOENT, w)
    | Some Undeletable \<Rightarrow> (Inl OtherError, w)
    | Some Removable \<Rightarrow> (Inr (), w\<lparr>uploads := (uploads w)(filePath := None)\<rparr>))"

definition deleteUploadFile :: "DocumentMeta \<Rightarrow> World \<Rightarrow> (fs_error + unit) \<times> World" where
  "deleteUploadFile document w =
     (case unlink (getUploadPath document) w of
        (Inl ENOENT, w') \<Rightarrow> (Inr (), w')
      | (Inl e, w') \<Rightarrow> (Inl e, w')
      | (Inr u, w') \<Rightarrow> (Inr u, w'))"

fun deleteUploadFiles :: "DocumentMeta list \<Rightarrow> World \<Rightarrow> (fs_error + unit) \<times> World" where
  \<comment> \<open>\<^verbatim>\<open>for (const doc of removedDocuments) { await deleteUploadFile(doc); }\<close>\<close>
  "deleteUploadFiles [] w = (Inr (), w)"
| "deleteUploadFiles (doc # docs) w =
     (case deleteUploadFile doc w of
        (Inl e, w') \<Rightarrow> (Inl e, w')
      | (Inr _, w') \<Rightarrow> deleteUploadFiles docs w')"

definition deleteAddress :: "string \<Rightarrow> World \<Rightarrow> (fs_error + unit) \<times> World" where
  "deleteAddress ident w =
     (case readStore w of
        (Inl e, w1) \<Rightarrow> (Inl e, w1)
      | (Inr (store, shared), w1) \<Rightarrow>
          let remainingAddresses = filter (\<lambda>address. id_address address \<noteq> ident) (addresses store);
              removedDocuments = filter (\<lambda>doc. addressId doc = ident) (documents store);
              remainingDocuments = filter (\<lambda>doc. addressId doc \<noteq> ident) (documents store)
          in case deleteUploadFiles removedDocuments w1 of
               (Inl e, w2) \<Rightarrow> (Inl e, w2)
             | (Inr _, w2) \<Rightarrow>
                 writeStore \<lparr>addresses = remainingAddresses, documents = remainingDocuments\<rparr> w2)"

section \<open>Numbers written in decimal digits\<close>

text \<open>
  For concrete inputs: \<^verbatim>\<open>Number\<close> on the empty string and on strings of at most fifteen
  decimal digits, where its value is the exact decimal value. On every other string
  \<open>decimalNumber\<close> is NaN, which is not what \<^verbatim>\<open>Number\<close> yields for signs, fractions,
  exponents, hexadecimal literals or white space; no statement below applies it there.
\<close>

definition isDigit :: "char \<Rightarrow> bool" where
  "isDigit c = (c \<in> set ''0123456789'')"

fun digitsValue :: "nat \<Rightarrow> string \<Rightarrow> nat" where
  "digitsValue acc [] = acc"
| "digitsValue acc (c # cs) = digitsValue (10 * acc + (of_char c - 48)) cs"

definition decimalNumber :: "string \<Rightarrow> jsnum" where
  "decimalNumber s =
     (if list_all isDigit s \<and> length s \<le> 15 then Fin (of_nat (digitsValue 0 s)) else NaN)"

section \<open>Notions for the statements and the proofs\<close>

text \<open>The length of a month, and dates at UTC midnight within the range of time values.\<close>

definition monthLength :: "int \<Rightarrow> int \<Rightarrow> int" where
  "monthLength leap m =
     (if m = 1 then 28 + leap
      else if m = 3 \<or> m = 5 \<or> m = 8 \<or> m = 10 then 30 else 31)"

definition DaysInMonth :: "int \<Rightarrow> int \<Rightarrow> int" where
  \<comment> \<open>The number of days of month \<open>m\<close> (0 = January) in year \<open>y\<close>.\<close>
  "DaysInMonth y m = monthLength (InLeapYear y) m"

definition aligned :: "jsdate \<Rightarrow> bool" where
  "aligned d = (case d of InvalidDate \<Rightarrow> True
                | Date t \<Rightarrow> msPerDay dvd t \<and> \<bar>t\<bar> \<le> 8640000000000000)"

definition alignedIv :: "Interval \<Rightarrow> bool" where
  "alignedIv r = (aligned (iv_start r) \<and> aligned (iv_end r))"


text \<open>
  Intervals of valid dates at midnight between two bounds, the days they cover, and runs
  that lie more than one day apart.
\<close>

definition startT :: "Interval \<Rightarrow> int" where
  "startT r = (case iv_start r of Date t \<Rightarrow> t | InvalidDate \<Rightarrow> 0)"

definition endT :: "Interval \<Rightarrow> int" where
  "endT r = (case iv_end r of Date t \<Rightarrow> t | InvalidDate \<Rightarrow> 0)"

definition okIv :: "int \<Rightarrow> int \<Rightarrow> Interval \<Rightarrow> bool" where
  "okIv lo hi r \<longleftrightarrow>
     (\<exists>s e. r = \<lparr>iv_start = Date s, iv_end = Date e\<rparr> \<and>
        msPerDay dvd s \<and> msPerDay dvd e \<and> lo \<le> s \<and> s \<le> e \<and> e \<le> hi)"

definition cover :: "Interval \<Rightarrow> int set" where
  "cover r = {t. msPerDay dvd t \<and> startT r \<le> t \<and> t \<le> endT r}"

definition Cover :: "Interval list \<Rightarrow> int set" where
  "Cover rs = (\<Union>r \<in> set rs. cover r)"

definition sep :: "Interval \<Rightarrow> Interval \<Rightarrow> bool" where
  "sep a b \<longleftrightarrow> endT a + msPerDay < startT b"

definition clampT :: "int \<Rightarrow> int \<Rightarrow> int \<Rightarrow> int" where
  "clampT rs re t = (if t < rs then rs else if re < t then re else t)"

text \<open>
  The Gap Engine's test, for the comparison of C9: the address is kept when the range
  passes the guard of \<^verbatim>\<open>getCoverageGaps\<close> and the callback of \<^verbatim>\<open>addresses.map\<close> yields an
  interval for it.
\<close>

definition gapEngineKeeps :: "(string \<Rightarrow> jsnum) \<Rightarrow> Address \<Rightarrow> DateRange \<Rightarrow> bool" where
  "gapEngineKeeps num address rng =
     (case (parseDate num (range_start rng), parseDate num (range_end rng)) of
        (Some rangeStart, Some rangeEnd) \<Rightarrow>
          \<not> date_lt rangeEnd rangeStart \<and>
          addressRange num rng rangeStart rangeEnd address \<noteq> None
      | _ \<Rightarrow> False)"

text \<open>The world after the removal of a set of upload files.\<close>

definition removeFiles :: "string set \<Rightarrow> World \<Rightarrow> World" where
  "removeFiles ps w = w\<lparr>uploads := (\<lambda>p. if p \<in> ps then None else uploads w p)\<rparr>"

text \<open>Concrete addresses, documents and worlds.\<close>

definition address_with_dates :: "string \<Rightarrow> string option \<Rightarrow> Address" where
  "address_with_dates s e =
     \<lparr>id_address = ''a1'', line1 = ''1 High Street'', line2 = None, town = ''Leeds'',
      county = None, postcode = ''LS1 1AA'', country = ''UK'', startDate = s, endDate = e,
      createdAt = ''2024-01-01T00:00:00.000Z'', updatedAt = ''2024-01-01T00:00:00.000Z''\<rparr>"

definition doc_of_address :: "string \<Rightarrow> string \<Rightarrow> string \<Rightarrow> DocumentMeta" where
  "doc_of_address i a n =
     \<lparr>id_document = i, addressId = a, originalName = ''proof.pdf'', storedName = n,
      mimeType = ''application/pdf'', size_document = 1024,
      uploadedAt = ''2024-01-02T00:00:00.000Z''\<rparr>"

definition example_store :: Store where
  "example_store =
     \<lparr>addresses = [address_with_dates ''2021-01-01'' None],
      documents = [doc_of_address ''d1'' ''a1'' ''d1.pdf'',
                   doc_of_address ''d2'' ''a1'' ''d2.pdf'']\<rparr>"

definition example_world :: World where
  \<comment> \<open>One address with two documents; the file of the first document cannot be deleted.\<close>
  "example_world =
     \<lparr>store_file =
        Content (Some [address_with_dates ''2021-01-01'' None])
                (Some [doc_of_address ''d1'' ''a1'' ''d1.pdf'',
                       doc_of_address ''d2'' ''a1'' ''d2.pdf'']),
      store_writable = True,
      uploads = [''data/uploads/d1.pdf'' \<mapsto> Undeletable, ''data/uploads/d2.pdf'' \<mapsto> Removable],
      emptyStore = \<lparr>addresses = [], documents = []\<rparr>\<rparr>"

definition removable_world :: World where
  \<comment> \<open>The example world with both upload files deletable.\<close>
  "removable_world =
     example_world\<lparr>uploads :=
       [''data/uploads/d1.pdf'' \<mapsto> Removable, ''data/uploads/d2.pdf'' \<mapsto> Removable]\<rparr>"

definition only_town :: "string \<Rightarrow> AddressUpdates" where
  "only_town t =
     \<lparr>u_line1 = None, u_line2 = None, u_town = Some t, u_county = None, u_postcode = None,
      u_country = None, u_startDate = None, u_endDate = None\<rparr>"

section \<open>Calendar arithmetic\<close>

lemma div_step:
  "0 < (n::int) \<Longrightarrow> (x + 1) div n = x div n + (if (x + 1) mod n = 0 then 1 else 0)"
proof -
  assume n: "0 < n"
  define q where "q = x div n"
  define r where "r = x mod n"
  have x: "x = q * n + r" by (simp add: q_def r_def)
  have r: "0 \<le> r" "r < n" using n by (simp_all add: r_def)
  show ?thesis
  proof (cases "r + 1 = n")
    case True
    then have "x + 1 = (q + 1) * n" using x by (simp add: algebra_simps)
    then show ?thesis using n q_def by simp
  next
    case False
    then have lt: "r + 1 < n" using r by simp
    have e: "x + 1 = q * n + (r + 1)" using x by simp
    have "(x + 1) div n = q" unfolding e using lt r n by (simp add: div_pos_pos_trivial)
    moreover have "(x + 1) mod n = r + 1"
      unfolding e using lt r n by (simp add: mod_pos_pos_trivial)
    ultimately show ?thesis using r q_def by simp
  qed
qed

lemma mod4_shift: "((y::int) - 1968) mod 4 = 0 \<longleftrightarrow> y mod 4 = 0"
  by presburger

lemma mod100_shift: "((y::int) - 1900) mod 100 = 0 \<longleftrightarrow> y mod 100 = 0"
  by presburger

lemma mod400_shift: "((y::int) - 1600) mod 400 = 0 \<longleftrightarrow> y mod 400 = 0"
  by presburger

lemma mod100_mod4: "(y::int) mod 100 = 0 \<Longrightarrow> y mod 4 = 0"
  by presburger

lemma mod400_mod100: "(y::int) mod 400 = 0 \<Longrightarrow> y mod 100 = 0"
  by presburger

lemma DayFromYear_Suc: "DayFromYear (y + 1) = DayFromYear y + DaysInYear y"
proof -
  have a: "(y + 1 - 1969) div 4 = (y - 1969) div 4 + (if y mod 4 = 0 then 1 else 0)"
    using div_step [of 4 "y - 1969"] mod4_shift [of y] by (simp add: algebra_simps)
  have b: "(y + 1 - 1901) div 100 = (y - 1901) div 100 + (if y mod 100 = 0 then 1 else 0)"
    using div_step [of 100 "y - 1901"] mod100_shift [of y] by (simp add: algebra_simps)
  have c: "(y + 1 - 1601) div 400 = (y - 1601) div 400 + (if y mod 400 = 0 then 1 else 0)"
    using div_step [of 400 "y - 1601"] mod400_shift [of y] by (simp add: algebra_simps)
  show ?thesis
    unfolding DayFromYear_def DaysInYear_def a b c
    using mod100_mod4 [of y] mod400_mod100 [of y] by auto
qed

lemma DaysInYear_pos: "365 \<le> DaysInYear y"
  by (simp add: DaysInYear_def)

termination yearSearch
proof (relation "measure (\<lambda>(d, y). nat (d + 1 - DayFromYear (y + 1)))")
  show "wf (measure (\<lambda>(d, y). nat (d + 1 - DayFromYear (y + 1))))"
    by simp
next
  fix d y :: int
  assume "DayFromYear (y + 1) \<le> d"
  moreover have "DayFromYear (y + 1 + 1) \<ge> DayFromYear (y + 1) + 365"
    using DayFromYear_Suc [of "y + 1"] DaysInYear_pos [of "y + 1"] by linarith
  ultimately show "((d, y + 1), (d, y)) \<in> measure (\<lambda>(d, y). nat (d + 1 - DayFromYear (y + 1)))"
    by simp
qed

declare yearSearch.simps [simp del]

lemma trunc_of_int [simp]: "trunc (of_int n) = n"
  by (simp add: trunc_def)

lemma monthOfDay_range: "0 \<le> monthOfDay l d \<and> monthOfDay l d \<le> 11"
  by (simp add: monthOfDay_def)

lemma MakeDay_of_time:
  "MakeDay (YearFromTime t) (MonthFromTime t) (DateFromTime t + k) = Day t + k"
proof -
  have m: "0 \<le> MonthFromTime t" "MonthFromTime t \<le> 11"
    using monthOfDay_range by (simp_all add: MonthFromTime_def)
  then have "MonthFromTime t div 12 = 0" "MonthFromTime t mod 12 = MonthFromTime t"
    by simp_all
  then show ?thesis
    by (simp add: MakeDay_def DateFromTime_def DayWithinYear_def)
qed

lemma addDays_Date: "addDays (Date t) k = TimeClip (t + k * msPerDay)"
proof -
  have "(Day t + k) * msPerDay + TimeWithinDay t = t + k * msPerDay"
    by (simp add: Day_def TimeWithinDay_def algebra_simps)
  then show ?thesis
    by (simp add: addDays_def setUTCDate_def getUTCDate_def jsnum_add_def
        MakeDay_of_time flip: of_int_add)
qed

lemma addDays_Invalid: "addDays InvalidDate k = InvalidDate"
  by (simp add: addDays_def setUTCDate_def getUTCDate_def jsnum_add_def)

lemma DayFromYear_mono_step: "DayFromYear y < DayFromYear (y + 1)"
  using DayFromYear_Suc [of y] DaysInYear_pos [of y] by linarith

lemma DayFromYear_le_add: "0 \<le> k \<Longrightarrow> DayFromYear y + 365 * k \<le> DayFromYear (y + k)"
proof (induction k rule: int_ge_induct)
  case base
  then show ?case by simp
next
  case (step i)
  have "DayFromYear (y + (i + 1)) = DayFromYear (y + i) + DaysInYear (y + i)"
    using DayFromYear_Suc [of "y + i"] by (simp add: add.assoc)
  with step DaysInYear_pos [of "y + i"] show ?case by (simp add: algebra_simps)
qed

lemma DayFromYear_mono: "y \<le> z \<Longrightarrow> DayFromYear y \<le> DayFromYear z"
  using DayFromYear_le_add [of "z - y" y] by simp

lemma DayFromYear_strict_mono: "y < z \<Longrightarrow> DayFromYear y < DayFromYear z"
  using DayFromYear_le_add [of "z - y" y] by simp

lemma DaysInYear_le: "DaysInYear y \<le> 366"
  by (simp add: DaysInYear_def)

lemma DayFromYear_1970 [simp]: "DayFromYear 1970 = 0"
  by (simp add: DayFromYear_def)

lemma DayFromYear_upper: "0 \<le> k \<Longrightarrow> DayFromYear (1970 + k) \<le> 366 * k"
proof (induction k rule: int_ge_induct)
  case base
  then show ?case by simp
next
  case (step i)
  have "DayFromYear (1970 + (i + 1)) = DayFromYear (1970 + i) + DaysInYear (1970 + i)"
    using DayFromYear_Suc [of "1970 + i"] by (simp add: add.assoc)
  with step DaysInYear_le [of "1970 + i"] show ?case by (simp add: algebra_simps)
qed

lemma DayFromYear_lower: "k \<le> 0 \<Longrightarrow> DayFromYear (1970 + k) \<le> 365 * k"
proof (induction k rule: int_le_induct)
  case base
  then show ?case by simp
next
  case (step i)
  have "DayFromYear (1970 + (i - 1) + 1) = DayFromYear (1970 + (i - 1)) + DaysInYear (1970 + (i - 1))"
    by (rule DayFromYear_Suc)
  then have "DayFromYear (1970 + i) = DayFromYear (1970 + (i - 1)) + DaysInYear (1970 + (i - 1))"
    by simp
  with step DaysInYear_pos [of "1970 + (i - 1)"] show ?case by (simp add: algebra_simps)
qed

lemma yearSearch_spec:
  "DayFromYear y \<le> d \<Longrightarrow>
   DayFromYear (yearSearch d y) \<le> d \<and> d < DayFromYear (yearSearch d y + 1)"
proof (induction d y rule: yearSearch.induct)
  case (1 d y)
  show ?case
  proof (cases "DayFromYear (y + 1) \<le> d")
    case True
    with "1.IH" show ?thesis by (subst (1 2) yearSearch.simps) simp
  next
    case False
    with "1.prems" show ?thesis by (subst (1 2) yearSearch.simps) simp
  qed
qed

lemma YearFromDay_spec:
  "DayFromYear (YearFromDay d) \<le> d \<and> d < DayFromYear (YearFromDay d + 1)"
proof (cases "0 \<le> d")
  case True
  have "DayFromYear (1970 + d div 366) \<le> 366 * (d div 366)"
    using True by (intro DayFromYear_upper) (simp add: pos_imp_zdiv_nonneg_iff)
  also have "\<dots> \<le> d" by simp
  finally show ?thesis using True yearSearch_spec by (simp add: YearFromDay_def)
next
  case False
  then have "d div 365 \<le> 0" using div_neg_pos_less0 [of d 365] by simp
  then have "DayFromYear (1970 + d div 365) \<le> 365 * (d div 365)"
    by (rule DayFromYear_lower)
  also have "\<dots> \<le> d" by simp
  finally show ?thesis using False yearSearch_spec by (simp add: YearFromDay_def)
qed

lemma YearFromDay_unique:
  assumes "DayFromYear y \<le> d" "d < DayFromYear (y + 1)"
  shows "YearFromDay d = y"
proof (rule ccontr)
  assume ne: "YearFromDay d \<noteq> y"
  note s = YearFromDay_spec [of d]
  show False
  proof (cases "YearFromDay d < y")
    case True
    then have "DayFromYear (YearFromDay d + 1) \<le> DayFromYear y"
      by (intro DayFromYear_mono) simp
    with s assms show False by linarith
  next
    case False
    with ne have "y + 1 \<le> YearFromDay d" by simp
    then have "DayFromYear (y + 1) \<le> DayFromYear (YearFromDay d)"
      by (rule DayFromYear_mono)
    with s assms show False by linarith
  qed
qed

section \<open>The gap engine returns normally\<close>

text \<open>
  Every \<^verbatim>\<open>Date\<close> the engine holds is an Invalid Date or a valid time value at UTC midnight.
  Each call of \<^verbatim>\<open>formatDate\<close> follows a comparison that is false on an Invalid Date, so that
  the RangeError of \<^verbatim>\<open>toISOString\<close> is never raised.
\<close>

lemma aligned_Invalid [simp]: "aligned InvalidDate"
  by (simp add: aligned_def)

lemma aligned_TimeClip: "msPerDay dvd t \<Longrightarrow> aligned (TimeClip t)"
  by (simp add: aligned_def TimeClip_def)

lemma aligned_Date_UTC: "aligned (Date_UTC y m d)"
  by (auto simp: Date_UTC_def aligned_TimeClip split: jsnum.splits)

lemma aligned_parseDate: "parseDate num v = Some d \<Longrightarrow> aligned d"
  by (auto simp: parseDate_def aligned_Date_UTC split: list.splits if_splits)

lemma aligned_clampDate:
  "aligned d \<Longrightarrow> aligned mn \<Longrightarrow> aligned mx \<Longrightarrow> aligned (clampDate d mn mx)"
  by (simp add: clampDate_def)

lemma alignedIv_addressRange:
  "addressRange num rng rs re a = Some r \<Longrightarrow> aligned rs \<Longrightarrow> aligned re \<Longrightarrow> alignedIv r"
  by (auto simp: addressRange_def alignedIv_def aligned_clampDate aligned_parseDate
      split: option.splits if_splits)

lemma set_insertRange: "set (insertRange x ys) = insert x (set ys)"
  by (induction ys) auto

lemma set_sortRanges: "set (sortRanges xs) = set xs"
  by (induction xs) (simp_all add: sortRanges_def set_insertRange)

lemma sortRanges_Nil_iff: "sortRanges xs = [] \<longleftrightarrow> xs = []"
  using set_sortRanges [of xs] by (metis set_empty)

lemma mergeStep_not_Nil: "mergeStep merged x \<noteq> []"
  by (simp add: mergeStep_def Let_def)

lemma foldl_mergeStep_not_Nil: "acc \<noteq> [] \<or> xs \<noteq> [] \<Longrightarrow> foldl mergeStep acc xs \<noteq> []"
  by (induction xs arbitrary: acc) (auto simp: mergeStep_not_Nil)

lemma alignedIv_mergeStep:
  assumes "\<forall>r \<in> set merged. alignedIv r" "alignedIv x"
  shows "\<forall>r \<in> set (mergeStep merged x). alignedIv r"
proof (cases "merged = []")
  case True
  with assms show ?thesis by (simp add: mergeStep_def)
next
  case False
  then have l: "alignedIv (last merged)" using assms by simp
  have b: "\<forall>r \<in> set (butlast merged). alignedIv r"
    using assms by (meson in_set_butlastD)
  have "alignedIv ((last merged)\<lparr>iv_end := iv_end x\<rparr>)"
    using l assms(2) by (simp add: alignedIv_def)
  with False assms b show ?thesis
    by (auto simp: mergeStep_def Let_def)
qed

lemma alignedIv_foldl_mergeStep:
  "\<forall>r \<in> set acc. alignedIv r \<Longrightarrow> \<forall>r \<in> set xs. alignedIv r \<Longrightarrow>
   \<forall>r \<in> set (foldl mergeStep acc xs). alignedIv r"
proof (induction xs arbitrary: acc)
  case Nil
  then show ?case by simp
next
  case (Cons x xs)
  have "\<forall>r \<in> set (mergeStep acc x). alignedIv r"
    using Cons.prems by (intro alignedIv_mergeStep) simp_all
  with Cons show ?case by simp
qed

lemma date_lt_Date: "date_lt a b \<longleftrightarrow> (\<exists>x y. a = Date x \<and> b = Date y \<and> x < y)"
  by (auto simp: date_lt_def split: jsdate.splits)

lemma date_le_Date: "date_le a b \<longleftrightarrow> (\<exists>x y. a = Date x \<and> b = Date y \<and> x \<le> y)"
  by (auto simp: date_le_def split: jsdate.splits)

lemma aligned_less_step:
  assumes "msPerDay dvd x" "msPerDay dvd y" "x < y"
  shows "x + msPerDay \<le> y"
proof -
  from assms obtain a b where ab: "x = msPerDay * a" "y = msPerDay * b"
    by (auto simp: dvd_def)
  have pos: "0 < msPerDay" by (simp add: msPerDay_def)
  with assms(3) ab have "a < b" by simp
  then have "a + 1 \<le> b" by simp
  then have "msPerDay * (a + 1) \<le> msPerDay * b" using pos by simp
  then show ?thesis using ab by (simp add: algebra_simps)
qed

lemma mkGap_Date:
  "mkGap (Date s) (Date e) l t =
     Inr \<lparr>gap_start = toISODate s, gap_end = toISODate e, isLeading = l, isTrailing = t\<rparr>"
  by (simp add: mkGap_def formatDate_def)

lemma addDays_back:
  assumes "aligned (Date x)" "aligned (Date s)" "s < x"
  shows "addDays (Date x) (- 1) = Date (x - msPerDay)"
proof -
  have "s + msPerDay \<le> x" using assms by (intro aligned_less_step) (simp_all add: aligned_def)
  moreover have "0 < msPerDay" by (simp add: msPerDay_def)
  moreover have "\<bar>x\<bar> \<le> 8640000000000000" "\<bar>s\<bar> \<le> 8640000000000000"
    using assms by (simp_all add: aligned_def)
  ultimately have "\<bar>x - msPerDay\<bar> \<le> 8640000000000000" by linarith
  then show ?thesis by (simp add: addDays_Date TimeClip_def)
qed

lemma addDays_forward:
  assumes "aligned (Date x)" "aligned (Date e)" "x < e"
  shows "addDays (Date x) 1 = Date (x + msPerDay)"
proof -
  have "x + msPerDay \<le> e" using assms by (intro aligned_less_step) (simp_all add: aligned_def)
  moreover have "0 < msPerDay" by (simp add: msPerDay_def)
  moreover have "\<bar>x\<bar> \<le> 8640000000000000" "\<bar>e\<bar> \<le> 8640000000000000"
    using assms by (simp_all add: aligned_def)
  ultimately have "\<bar>x + msPerDay\<bar> \<le> 8640000000000000" by linarith
  then show ?thesis by (simp add: addDays_Date TimeClip_def)
qed

lemma leadingGap_returns:
  assumes "merged \<noteq> []" "alignedIv (hd merged)" "aligned rs"
  shows "\<exists>gs. leadingGap merged rs = Inr gs"
proof -
  from assms(1) obtain f rest where m: "merged = f # rest" by (cases merged) auto
  show ?thesis
  proof (cases "date_gt (iv_start f) rs")
    case False
    then show ?thesis by (simp add: leadingGap_def m)
  next
    case True
    then obtain s x where d: "rs = Date s" "iv_start f = Date x" "s < x"
      by (auto simp: date_gt_def date_lt_Date)
    have "addDays (Date x) (- 1) = Date (x - msPerDay)"
      using assms d m by (intro addDays_back [of x s]) (simp_all add: alignedIv_def)
    then show ?thesis using True d by (simp add: leadingGap_def m mkGap_Date)
  qed
qed

lemma internalGaps_Cons_returns: "\<exists>gs. internalGaps (current # rest) = Inr gs"
proof (induction rest arbitrary: current)
  case Nil
  then show ?case by simp
next
  case (Cons nxt rest)
  obtain gs where gs: "internalGaps (nxt # rest) = Inr gs"
    using Cons.IH by blast
  show ?case
  proof (cases "date_le (addDays (iv_end current) 1) (addDays (iv_start nxt) (- 1))")
    case True
    then obtain x y where
      "addDays (iv_end current) 1 = Date x" "addDays (iv_start nxt) (- 1) = Date y"
      by (auto simp: date_le_Date)
    with True gs show ?thesis by (simp add: Let_def mkGap_Date)
  next
    case False
    with gs show ?thesis by (simp add: Let_def)
  qed
qed

lemma internalGaps_returns: "\<exists>gs. internalGaps merged = Inr gs"
  by (cases merged) (simp_all add: internalGaps_Cons_returns)

lemma trailingGap_returns:
  assumes "merged \<noteq> []" "alignedIv (last merged)" "aligned re"
  shows "\<exists>gs. trailingGap merged re = Inr gs"
proof (cases "date_lt (iv_end (last merged)) re")
  case False
  with assms(1) show ?thesis by (simp add: trailingGap_def Let_def)
next
  case True
  then obtain x e where d: "iv_end (last merged) = Date x" "re = Date e" "x < e"
    by (auto simp: date_lt_Date)
  have "addDays (Date x) 1 = Date (x + msPerDay)"
    using assms d by (intro addDays_forward [of x e]) (simp_all add: alignedIv_def)
  then show ?thesis using True d assms(1) by (simp add: trailingGap_def Let_def mkGap_Date)
qed

lemma emitGaps_returns:
  assumes "merged \<noteq> []" "\<forall>r \<in> set merged. alignedIv r" "aligned rs" "aligned re"
  shows "\<exists>gs. emitGaps merged rs re = Inr gs"
proof -
  obtain g1 where "leadingGap merged rs = Inr g1"
    using leadingGap_returns [of merged rs] assms by auto
  moreover obtain g2 where "internalGaps merged = Inr g2"
    using internalGaps_returns by blast
  moreover obtain g3 where "trailingGap merged re = Inr g3"
    using trailingGap_returns [of merged re] assms by auto
  ultimately show ?thesis by (simp add: emitGaps_def)
qed

lemma alignedIv_addressRanges:
  assumes "aligned rs" "aligned re"
  shows "\<forall>r \<in> set (addressRanges num rng rs re addrs). alignedIv r"
  using assms
  by (auto simp: addressRanges_def set_sortRanges List.map_filter_def
      intro: alignedIv_addressRange)

lemma getCoverageGaps_returns: "\<exists>gs. getCoverageGaps num addrs rng = Inr gs"
proof (cases "parseDate num (range_start rng)")
  case None
  then show ?thesis by (simp add: getCoverageGaps_def)
next
  case (Some rs)
  note s = this
  show ?thesis
  proof (cases "parseDate num (range_end rng)")
    case None
    with s show ?thesis by (simp add: getCoverageGaps_def)
  next
    case (Some re)
    have al: "aligned rs" "aligned re"
      using s Some by (auto dest: aligned_parseDate)
    let ?ranges = "addressRanges num rng rs re addrs"
    show ?thesis
    proof (cases "date_lt re rs \<or> ?ranges = []")
      case True
      with s Some show ?thesis by (auto simp: getCoverageGaps_def Let_def)
    next
      case False
      have "\<forall>r \<in> set (foldl mergeStep [] ?ranges). alignedIv r"
        using alignedIv_addressRanges [OF al] by (intro alignedIv_foldl_mergeStep) simp_all
      moreover have "foldl mergeStep [] ?ranges \<noteq> []"
        using False by (intro foldl_mergeStep_not_Nil) simp
      ultimately obtain gs where "emitGaps (foldl mergeStep [] ?ranges) rs re = Inr gs"
        using emitGaps_returns al by blast
      with False s Some show ?thesis by (simp add: getCoverageGaps_def Let_def)
    qed
  qed
qed

section \<open>Years, months and days of a time value\<close>

lemma InLeapYear_cases: "InLeapYear y = 0 \<and> DaysInYear y = 365 \<or> InLeapYear y = 1 \<and> DaysInYear y = 366"
  by (simp add: InLeapYear_def DaysInYear_def)

lemma month_cases:
  assumes "0 \<le> (m::int)" "m \<le> 11"
  obtains "m = 0" | "m = 1" | "m = 2" | "m = 3" | "m = 4" | "m = 5" | "m = 6" | "m = 7"
    | "m = 8" | "m = 9" | "m = 10" | "m = 11"
proof -
  have "m = 0 \<or> m = 1 \<or> m = 2 \<or> m = 3 \<or> m = 4 \<or> m = 5 \<or> m = 6 \<or> m = 7 \<or>
      m = 8 \<or> m = 9 \<or> m = 10 \<or> m = 11"
    using assms by arith
  then show thesis using that by blast
qed

lemma monthOfDay_daysBeforeMonth:
  assumes "0 \<le> m" "m \<le> 11" "1 \<le> d" "d \<le> DaysInMonth y m"
  shows "monthOfDay (InLeapYear y) (daysBeforeMonth (InLeapYear y) m + d - 1) = m"
  using assms(1,2)
proof (cases m rule: month_cases)
qed (use assms InLeapYear_cases [of y] in \<open>auto simp: monthOfDay_def daysBeforeMonth_def DaysInMonth_def monthLength_def\<close>)

lemma dayWithinYear_range:
  assumes "0 \<le> m" "m \<le> 11" "1 \<le> d" "d \<le> DaysInMonth y m"
  shows "0 \<le> daysBeforeMonth (InLeapYear y) m + d - 1 \<and>
         daysBeforeMonth (InLeapYear y) m + d - 1 < DaysInYear y"
  using assms(1,2)
proof (cases m rule: month_cases)
qed (use assms InLeapYear_cases [of y] in \<open>auto simp: daysBeforeMonth_def DaysInMonth_def monthLength_def\<close>)

lemma MakeDay_month: "0 \<le> m \<Longrightarrow> m \<le> 11 \<Longrightarrow>
  MakeDay y m d = DayFromYear y + daysBeforeMonth (InLeapYear y) m + d - 1"
  by (simp add: MakeDay_def)

lemma Day_times [simp]: "Day (n * msPerDay) = n"
  by (simp add: Day_def msPerDay_def)

text \<open>From a year, a month and a day of that month to the day number and back.\<close>

lemma civil_roundtrip:
  assumes "0 \<le> m" "m \<le> 11" "1 \<le> d" "d \<le> DaysInMonth y m"
  shows "YearFromTime (MakeDay y m d * msPerDay) = y"
    and "MonthFromTime (MakeDay y m d * msPerDay) = m"
    and "DateFromTime (MakeDay y m d * msPerDay) = d"
proof -
  note r = dayWithinYear_range [OF assms]
  have md: "MakeDay y m d = DayFromYear y + (daysBeforeMonth (InLeapYear y) m + d - 1)"
    using assms by (simp add: MakeDay_month)
  have "YearFromDay (MakeDay y m d) = y"
    using r by (intro YearFromDay_unique) (simp_all add: md DayFromYear_Suc)
  then show y: "YearFromTime (MakeDay y m d * msPerDay) = y"
    by (simp add: YearFromTime_def)
  have dwy: "DayWithinYear (MakeDay y m d * msPerDay) = daysBeforeMonth (InLeapYear y) m + d - 1"
    by (simp add: DayWithinYear_def y) (simp add: md)
  show m: "MonthFromTime (MakeDay y m d * msPerDay) = m"
    unfolding MonthFromTime_def y dwy by (rule monthOfDay_daysBeforeMonth [OF assms])
  show "DateFromTime (MakeDay y m d * msPerDay) = d"
    unfolding DateFromTime_def y m dwy by simp
qed

lemma DayWithinYear_range: "0 \<le> DayWithinYear t \<and> DayWithinYear t < DaysInYear (YearFromTime t)"
  using YearFromDay_spec [of "Day t"] DayFromYear_Suc [of "YearFromTime t"]
  by (simp add: DayWithinYear_def YearFromTime_def)

lemma MonthFromTime_range: "0 \<le> MonthFromTime t \<and> MonthFromTime t \<le> 11"
  by (simp add: MonthFromTime_def monthOfDay_range)

lemma date_in_month:
  assumes "0 \<le> w" "w < 365 + l" "l = 0 \<or> l = 1"
  shows "1 \<le> w + 1 - daysBeforeMonth l (monthOfDay l w) \<and>
         w + 1 - daysBeforeMonth l (monthOfDay l w) \<le> monthLength l (monthOfDay l w)"
  using assms by (auto simp: monthOfDay_def daysBeforeMonth_def monthLength_def)

lemma DateFromTime_range:
  "1 \<le> DateFromTime t \<and> DateFromTime t \<le> DaysInMonth (YearFromTime t) (MonthFromTime t)"
proof -
  have "0 \<le> DayWithinYear t" "DayWithinYear t < 365 + InLeapYear (YearFromTime t)"
      "InLeapYear (YearFromTime t) = 0 \<or> InLeapYear (YearFromTime t) = 1"
    using DayWithinYear_range [of t] InLeapYear_cases [of "YearFromTime t"] by auto
  from date_in_month [OF this] show ?thesis
    unfolding DateFromTime_def MonthFromTime_def DaysInMonth_def .
qed

lemma DayFromYear_100: "DayFromYear 100 = - 683003"
  by (simp add: DayFromYear_def)

lemma DayFromYear_10000: "DayFromYear 10000 = 2932897"
  by (simp add: DayFromYear_def)

lemma civil_time_valid:
  assumes "100 \<le> y" "y \<le> 9999" "0 \<le> m" "m \<le> 11" "1 \<le> d" "d \<le> DaysInMonth y m"
  shows "TimeClip (MakeDay y m d * msPerDay) = Date (MakeDay y m d * msPerDay)"
proof -
  note r = dayWithinYear_range [OF assms(3-6)]
  have md: "MakeDay y m d = DayFromYear y + (daysBeforeMonth (InLeapYear y) m + d - 1)"
    using assms by (simp add: MakeDay_month)
  have "DayFromYear 100 \<le> DayFromYear y" using assms(1) by (rule DayFromYear_mono)
  moreover have "DayFromYear (y + 1) \<le> DayFromYear 10000"
    using assms(2) by (intro DayFromYear_mono) simp
  ultimately have "- 683003 \<le> MakeDay y m d" "MakeDay y m d < 2932897"
    using r DayFromYear_Suc [of y] by (simp_all add: md DayFromYear_100 DayFromYear_10000)
  then have "\<bar>MakeDay y m d * msPerDay\<bar> \<le> 8640000000000000"
    by (simp add: msPerDay_def abs_le_iff)
  then show ?thesis by (simp add: TimeClip_def)
qed

lemma MakeFullYear_of_int: "100 \<le> y \<Longrightarrow> MakeFullYear (of_int y) = y"
  by (simp add: MakeFullYear_def)

lemma Date_UTC_of_int:
  "100 \<le> y \<Longrightarrow>
   Date_UTC (Fin (of_int y)) (Fin (of_int m)) (Fin (of_int d)) =
     TimeClip (MakeDay y m d * msPerDay)"
  by (simp add: Date_UTC_def MakeFullYear_of_int)

lemma toISODate_civil:
  assumes "0 \<le> y" "y \<le> 9999" "0 \<le> m" "m \<le> 11" "1 \<le> d" "d \<le> DaysInMonth y m"
  shows "toISODate (MakeDay y m d * msPerDay) = isoDate y (m + 1) d"
  using assms by (simp add: toISODate_def civil_roundtrip [OF assms(3-6)])

lemma subtractYears_civil:
  assumes y: "103 \<le> y" "y \<le> 9999" and m: "0 \<le> m" "m \<le> 11"
    and d: "1 \<le> d" "d \<le> DaysInMonth y m"
  shows "subtractYears (Date (MakeDay y m d * msPerDay)) 3 =
         Date (MakeDay (y - 3) m (min d (DaysInMonth (y - 3) m)) * msPerDay)"
proof -
  let ?t = "MakeDay y m d * msPerDay"
  note rt = civil_roundtrip [OF m d]
  have yr: "jsnum_add (getUTCFullYear (Date ?t)) (- 3) = Fin (of_int (y - 3))"
    by (simp add: getUTCFullYear_def jsnum_add_def rt)
  have mo: "getUTCMonth (Date ?t) = Fin (of_int m)"
    by (simp add: getUTCMonth_def rt)
  have da: "getUTCDate (Date ?t) = Fin (of_int d)"
    by (simp add: getUTCDate_def rt)
  have y3: "100 \<le> y - 3" "y - 3 \<le> 9999" using y by simp_all
  have cand: "Date_UTC (Fin (of_int (y - 3))) (Fin (of_int m)) (Fin (of_int d)) =
      TimeClip (MakeDay (y - 3) m d * msPerDay)"
    using y3(1) by (rule Date_UTC_of_int)
  show ?thesis
  proof (cases "d \<le> DaysInMonth (y - 3) m")
    case True
    have v: "TimeClip (MakeDay (y - 3) m d * msPerDay) = Date (MakeDay (y - 3) m d * msPerDay)"
      using y3 m d True by (intro civil_time_valid)
    have gm: "getUTCMonth (Date (MakeDay (y - 3) m d * msPerDay)) = Fin (of_int m)"
      by (simp add: getUTCMonth_def civil_roundtrip [OF m d(1) True])
    show ?thesis
      unfolding subtractYears_def Let_def yr mo da cand v gm
      using True by (simp add: min_def strict_neq_def)
  next
    case False
    with d have feb: "m = 1" "d = 29" "InLeapYear (y - 3) = 0"
      using InLeapYear_cases [of y] InLeapYear_cases [of "y - 3"]
      by (auto simp: DaysInMonth_def monthLength_def split: if_splits)
    have e1: "MakeDay (y - 3) 1 29 = MakeDay (y - 3) 2 1"
      by (simp add: MakeDay_month daysBeforeMonth_def feb)
    have e2: "MakeDay (y - 3) 2 0 = MakeDay (y - 3) 1 28"
      by (simp add: MakeDay_month daysBeforeMonth_def feb)
    have d31: "(1::int) \<le> DaysInMonth (y - 3) 2" "(28::int) \<le> DaysInMonth (y - 3) 1"
      by (simp_all add: DaysInMonth_def monthLength_def feb)
    have v1: "TimeClip (MakeDay (y - 3) 2 1 * msPerDay) = Date (MakeDay (y - 3) 2 1 * msPerDay)"
      using y3 d31 by (intro civil_time_valid) simp_all
    have v2: "TimeClip (MakeDay (y - 3) 1 28 * msPerDay) = Date (MakeDay (y - 3) 1 28 * msPerDay)"
      using y3 d31 by (intro civil_time_valid) simp_all
    have mm: "MonthFromTime (MakeDay (y - 3) 2 1 * msPerDay) = 2"
      using d31 by (intro civil_roundtrip) simp_all
    have last: "Date_UTC (Fin (of_int (y - 3))) (jsnum_add (Fin (of_int m)) 1) (Fin 0) =
        Date (MakeDay (y - 3) 1 28 * msPerDay)"
      using Date_UTC_of_int [OF y3(1), of 2 0] by (simp add: jsnum_add_def e2 v2 feb(1))
    have gm: "getUTCMonth (Date (MakeDay (y - 3) 2 1 * msPerDay)) = Fin (of_int 2)"
      by (simp add: getUTCMonth_def mm)
    have c29: "TimeClip (MakeDay (y - 3) m d * msPerDay) = Date (MakeDay (y - 3) 2 1 * msPerDay)"
      by (simp add: feb(1,2) e1 v1)
    show ?thesis
      unfolding subtractYears_def Let_def yr mo da cand c29 gm last
      by (simp add: feb DaysInMonth_def monthLength_def strict_neq_def)
  qed
qed

lemma min_day_in_month:
  "1 \<le> d \<Longrightarrow> 1 \<le> min d (DaysInMonth y m) \<and> min d (DaysInMonth y m) \<le> DaysInMonth y m"
  by (simp add: DaysInMonth_def monthLength_def InLeapYear_def)

section \<open>The internal gaps, one by one\<close>






section \<open>Two intervals with a hole between them\<close>

lemma parseDate_Date_aligned:
  "parseDate num v = Some (Date t) \<Longrightarrow> msPerDay dvd t \<and> \<bar>t\<bar> \<le> 8640000000000000"
  using aligned_parseDate [of num v "Date t"] by (simp add: aligned_def)

lemma clampDate_Date:
  "clampDate (Date t) (Date rs) (Date re) = Date (if t < rs then rs else if re < t then re else t)"
  by (simp add: clampDate_def date_lt_def date_gt_def)

lemma addDays_plus:
  "\<bar>t + msPerDay\<bar> \<le> 8640000000000000 \<Longrightarrow> addDays (Date t) 1 = Date (t + msPerDay)"
  by (simp add: addDays_Date TimeClip_def)


lemma msPerDay_pos: "0 < msPerDay"
  by (simp add: msPerDay_def)





section \<open>The merged runs are determined by the covered days\<close>

text \<open>
  For intervals of valid dates inside a range that ends before the last representable day,
  the merging loop yields runs that are more than one day apart, in ascending order, and
  that cover the same days as the intervals. Such a list of runs is unique.
\<close>

lemma startT_simps [simp]:
  "startT \<lparr>iv_start = Date s, iv_end = e\<rparr> = s"
  "startT (r\<lparr>iv_end := e\<rparr>) = startT r"
  by (simp_all add: startT_def)

lemma endT_simps [simp]:
  "endT \<lparr>iv_start = s, iv_end = Date e\<rparr> = e"
  "endT (r\<lparr>iv_end := Date e\<rparr>) = e"
  by (simp_all add: endT_def)

lemma okIv_iff:
  "okIv lo hi r \<longleftrightarrow>
     iv_start r = Date (startT r) \<and> iv_end r = Date (endT r) \<and>
     msPerDay dvd startT r \<and> msPerDay dvd endT r \<and>
     lo \<le> startT r \<and> startT r \<le> endT r \<and> endT r \<le> hi"
  by (cases r) (auto simp: okIv_def)

lemma Cover_simps [simp]:
  "Cover [] = {}" "Cover (r # rs) = cover r \<union> Cover rs" "Cover (xs @ ys) = Cover xs \<union> Cover ys"
  by (auto simp: Cover_def)

lemma okIv_eq: "okIv lo hi a \<Longrightarrow> okIv lo hi b \<Longrightarrow> startT a = startT b \<Longrightarrow> endT a = endT b \<Longrightarrow> a = b"
  by (auto simp: okIv_def)

lemma okIv_start_in_cover: "okIv lo hi r \<Longrightarrow> startT r \<in> cover r"
  by (simp add: okIv_iff cover_def)

text \<open>One round of the merging loop keeps the runs separated and adds the item's days.\<close>

lemma mergeStep_ok:
  assumes hi: "hi + msPerDay \<le> 8640000000000000" and lo: "- 8640000000000000 \<le> lo"
    and acc: "\<forall>r \<in> set acc. okIv lo hi r" "sorted_wrt sep acc"
    and x: "okIv lo hi x"
    and le: "acc \<noteq> [] \<Longrightarrow> startT (last acc) \<le> startT x"
  shows "(\<forall>r \<in> set (mergeStep acc x). okIv lo hi r) \<and> sorted_wrt sep (mergeStep acc x) \<and>
         Cover (mergeStep acc x) = Cover acc \<union> cover x \<and>
         startT (last (mergeStep acc x)) \<le> startT x"
proof (cases "acc = []")
  case True
  with x show ?thesis by (simp add: mergeStep_def)
next
  case False
  note ne = this
  then obtain bs l where a: "acc = bs @ [l]"
    by (metis append_butlast_last_id)
  have l: "okIv lo hi l" and bs: "\<forall>r \<in> set bs. okIv lo hi r"
    using acc(1) a by simp_all
  have sl: "startT l \<le> startT x" using le a by simp
  have sb: "sorted_wrt sep bs" "\<forall>b \<in> set bs. sep b l"
    using acc(2) a by (simp_all add: sorted_wrt_append)
  have p: "0 < msPerDay" by (rule msPerDay_pos)
  have lD: "iv_start l = Date (startT l)" "iv_end l = Date (endT l)"
      "msPerDay dvd startT l" "msPerDay dvd endT l" "lo \<le> startT l"
      "startT l \<le> endT l" "endT l \<le> hi"
    using l by (simp_all add: okIv_iff)
  have xD: "iv_start x = Date (startT x)" "iv_end x = Date (endT x)"
      "msPerDay dvd startT x" "msPerDay dvd endT x" "lo \<le> startT x"
      "startT x \<le> endT x" "endT x \<le> hi"
    using x by (simp_all add: okIv_iff)
  have "\<bar>endT l + msPerDay\<bar> \<le> 8640000000000000"
    using lD hi lo p by linarith
  then have ad: "addDays (Date (endT l)) 1 = Date (endT l + msPerDay)"
    by (rule addDays_plus)
  have cond: "date_le (iv_start x) (addDays (iv_end (last acc)) 1) \<longleftrightarrow>
      startT x \<le> endT l + msPerDay"
    by (simp add: a lD(2) xD(1) ad date_le_def)
  have gt: "date_gt (iv_end x) (iv_end (last acc)) \<longleftrightarrow> endT l < endT x"
    by (simp add: a lD(2) xD(2) date_gt_def date_lt_def)
  show ?thesis
  proof (cases "startT x \<le> endT l + msPerDay")
    case True
    note near = this
    show ?thesis
    proof (cases "endT l < endT x")
      case True
      let ?l' = "l\<lparr>iv_end := iv_end x\<rparr>"
      have m: "mergeStep acc x = bs @ [?l']"
        using near True cond gt ne by (simp add: mergeStep_def Let_def) (simp add: a)
      have sT: "startT ?l' = startT l" "endT ?l' = endT x"
        by (simp_all add: xD(2))
      have ok': "okIv lo hi ?l'"
        unfolding okIv_iff sT using lD xD True by simp
      have "cover ?l' = cover l \<union> cover x"
      proof (rule set_eqI)
        fix t
        show "t \<in> cover ?l' \<longleftrightarrow> t \<in> cover l \<union> cover x"
        proof (cases "msPerDay dvd t \<and> endT l < t")
          case True
          then have "endT l + msPerDay \<le> t"
            using aligned_less_step [of "endT l" t] lD by simp
          with True near sl lD show ?thesis
            by (auto simp: cover_def sT)
        next
          case False
          with \<open>endT l < endT x\<close> sl show ?thesis
            by (auto simp: cover_def sT)
        qed
      qed
      moreover have "sorted_wrt sep (bs @ [?l'])"
        using sb by (simp add: sorted_wrt_append sep_def sT)
      ultimately show ?thesis
        unfolding m using bs ok' sl by (auto simp: a sT)
    next
      case False
      have m: "mergeStep acc x = acc"
        using near False cond gt ne by (simp add: mergeStep_def Let_def)
      have "cover x \<subseteq> cover l"
        using False sl by (auto simp: cover_def)
      then show ?thesis
        unfolding m using acc sl by (auto simp: a)
    qed
  next
    case False
    note far = this
    have m: "mergeStep acc x = acc @ [x]"
      using far cond ne by (simp add: mergeStep_def Let_def)
    have "sep l x" using far by (simp add: sep_def)
    moreover have "\<forall>b \<in> set bs. sep b x"
    proof
      fix b assume "b \<in> set bs"
      then have "sep b l" using sb by simp
      then show "sep b x" using far p lD by (simp add: sep_def)
    qed
    ultimately have "sorted_wrt sep (acc @ [x])"
      using acc(2) by (simp add: a sorted_wrt_append)
    then show ?thesis
      unfolding m using acc x by auto
  qed
qed

lemma foldl_mergeStep_ok:
  assumes hi: "hi + msPerDay \<le> 8640000000000000" and lo: "- 8640000000000000 \<le> lo"
  shows "\<forall>r \<in> set acc. okIv lo hi r \<Longrightarrow> sorted_wrt sep acc \<Longrightarrow>
         \<forall>r \<in> set xs. okIv lo hi r \<Longrightarrow> sorted_wrt (\<lambda>a b. startT a \<le> startT b) xs \<Longrightarrow>
         (acc \<noteq> [] \<Longrightarrow> \<forall>x \<in> set xs. startT (last acc) \<le> startT x) \<Longrightarrow>
         (\<forall>r \<in> set (foldl mergeStep acc xs). okIv lo hi r) \<and>
         sorted_wrt sep (foldl mergeStep acc xs) \<and>
         Cover (foldl mergeStep acc xs) = Cover acc \<union> Cover xs"
proof (induction xs arbitrary: acc)
  case Nil
  then show ?case by simp
next
  case (Cons x xs)
  have st: "mergeStep acc x \<noteq> []" by (rule mergeStep_not_Nil)
  have m: "(\<forall>r \<in> set (mergeStep acc x). okIv lo hi r) \<and> sorted_wrt sep (mergeStep acc x) \<and>
         Cover (mergeStep acc x) = Cover acc \<union> cover x \<and>
         startT (last (mergeStep acc x)) \<le> startT x"
    using Cons.prems by (intro mergeStep_ok [OF hi lo]) simp_all
  have "\<forall>y \<in> set xs. startT x \<le> startT y"
    using Cons.prems(4) by simp
  with m have "\<forall>y \<in> set xs. startT (last (mergeStep acc x)) \<le> startT y"
    by (meson order_trans)
  then have "(\<forall>r \<in> set (foldl mergeStep (mergeStep acc x) xs). okIv lo hi r) \<and>
         sorted_wrt sep (foldl mergeStep (mergeStep acc x) xs) \<and>
         Cover (foldl mergeStep (mergeStep acc x) xs) = Cover (mergeStep acc x) \<union> Cover xs"
    using m Cons.prems by (intro Cons.IH) simp_all
  with m show ?case by auto
qed

lemma compareStart_valid:
  "iv_start x \<noteq> InvalidDate \<Longrightarrow> iv_start y \<noteq> InvalidDate \<Longrightarrow>
   compareStart x y = startT x - startT y"
  by (simp add: compareStart_def startT_def split: jsdate.splits)

lemma sorted_insertRange:
  "iv_start x \<noteq> InvalidDate \<Longrightarrow> \<forall>r \<in> set ys. iv_start r \<noteq> InvalidDate \<Longrightarrow>
   sorted_wrt (\<lambda>a b. startT a \<le> startT b) ys \<Longrightarrow>
   sorted_wrt (\<lambda>a b. startT a \<le> startT b) (insertRange x ys)"
proof (induction ys)
  case Nil
  then show ?case by simp
next
  case (Cons y ys)
  have c: "compareStart x y = startT x - startT y"
    using Cons.prems by (intro compareStart_valid) simp_all
  show ?case
  proof (cases "startT x \<le> startT y")
    case True
    then have "insertRange x (y # ys) = x # y # ys" by (simp add: c)
    moreover have "\<forall>z \<in> set ys. startT x \<le> startT z"
      using True Cons.prems(3) by fastforce
    ultimately show ?thesis using True Cons.prems(3) by (simp del: insertRange.simps)
  next
    case False
    then have i: "insertRange x (y # ys) = y # insertRange x ys" by (simp add: c)
    have "sorted_wrt (\<lambda>a b. startT a \<le> startT b) (insertRange x ys)"
      using Cons.prems by (intro Cons.IH) simp_all
    moreover have "\<forall>z \<in> set (insertRange x ys). startT y \<le> startT z"
      using False Cons.prems(3) by (simp add: set_insertRange)
    ultimately show ?thesis unfolding i by simp
  qed
qed

lemma sorted_sortRanges:
  "\<forall>r \<in> set xs. iv_start r \<noteq> InvalidDate \<Longrightarrow>
   sorted_wrt (\<lambda>a b. startT a \<le> startT b) (sortRanges xs)"
proof (induction xs)
  case Nil
  then show ?case by (simp add: sortRanges_def)
next
  case (Cons x xs)
  then have "sorted_wrt (\<lambda>a b. startT a \<le> startT b) (insertRange x (sortRanges xs))"
    by (intro sorted_insertRange) (simp_all add: set_sortRanges)
  then show ?case by (simp add: sortRanges_def)
qed

lemma Cover_set: "set xs = set ys \<Longrightarrow> Cover xs = Cover ys"
  by (simp add: Cover_def)

lemma cover_bounds: "t \<in> cover r \<Longrightarrow> startT r \<le> t \<and> t \<le> endT r \<and> msPerDay dvd t"
  by (simp add: cover_def)

lemma canon_head_least:
  assumes "sorted_wrt sep (x # xs)" "\<forall>r \<in> set (x # xs). okIv lo hi r" "t \<in> Cover (x # xs)"
  shows "startT x \<le> t"
proof -
  from assms(3) obtain z where z: "z \<in> set (x # xs)" "t \<in> cover z"
    by (auto simp: Cover_def)
  have "startT x \<le> startT z"
  proof (cases "z = x")
    case True
    then show ?thesis by simp
  next
    case False
    with z have "sep x z" using assms(1) by auto
    moreover have "startT x \<le> endT x" using assms(2) by (simp add: okIv_iff)
    ultimately show ?thesis using msPerDay_pos by (simp add: sep_def)
  qed
  with z show ?thesis by (auto dest: cover_bounds)
qed

lemma canon_tail_after:
  assumes "sorted_wrt sep (x # xs)" "t \<in> Cover xs"
  shows "endT x + msPerDay < t"
proof -
  from assms(2) obtain z where z: "z \<in> set xs" "t \<in> cover z"
    by (auto simp: Cover_def)
  then have "sep x z" using assms(1) by auto
  with z show ?thesis by (auto simp: sep_def dest: cover_bounds)
qed

lemma canon_heads_equal:
  assumes x: "sorted_wrt sep (x # xs)" "\<forall>r \<in> set (x # xs). okIv lo hi r"
    and y: "sorted_wrt sep (y # ys)" "\<forall>r \<in> set (y # ys). okIv lo hi r"
    and c: "Cover (x # xs) = Cover (y # ys)"
  shows "endT x \<le> endT y"
proof (rule ccontr)
  assume "\<not> endT x \<le> endT y"
  then have lt: "endT y < endT x" by simp
  have okx: "okIv lo hi x" and oky: "okIv lo hi y" using x y by simp_all
  have sx: "startT x \<in> Cover (x # xs)" using okIv_start_in_cover [OF okx] by simp
  have sy: "startT y \<in> Cover (y # ys)" using okIv_start_in_cover [OF oky] by simp
  have "startT x \<in> Cover (y # ys)" using sx unfolding c .
  then have "startT y \<le> startT x" by (rule canon_head_least [OF y])
  moreover have "startT y \<in> Cover (x # xs)" using sy unfolding c [symmetric] .
  then have "startT x \<le> startT y" by (rule canon_head_least [OF x])
  ultimately have s: "startT x = startT y" by simp
  define t where "t = endT y + msPerDay"
  have d: "msPerDay dvd t" using oky by (simp add: t_def okIv_iff)
  have "t \<le> endT x"
    using aligned_less_step [of "endT y" "endT x"] okx oky lt by (simp add: t_def okIv_iff)
  moreover have "startT x \<le> t" using s oky msPerDay_pos by (simp add: t_def okIv_iff)
  ultimately have "t \<in> cover x" using d by (simp add: cover_def)
  then have "t \<in> Cover (y # ys)" using c by auto
  then have "t \<in> cover y \<or> t \<in> Cover ys" by simp
  then show False
  proof
    assume "t \<in> cover y"
    then show False using msPerDay_pos by (auto simp: t_def dest: cover_bounds)
  next
    assume "t \<in> Cover ys"
    then show False using canon_tail_after [OF y(1), of t] by (simp add: t_def)
  qed
qed

lemma canon_unique:
  "sorted_wrt sep xs \<Longrightarrow> \<forall>r \<in> set xs. okIv lo hi r \<Longrightarrow>
   sorted_wrt sep ys \<Longrightarrow> \<forall>r \<in> set ys. okIv lo hi r \<Longrightarrow>
   Cover xs = Cover ys \<Longrightarrow> xs = ys"
proof (induction xs arbitrary: ys)
  case Nil
  show ?case
  proof (cases ys)
    case Nil
    then show ?thesis by simp
  next
    case (Cons y ys')
    then have "startT y \<in> Cover ys"
      using Nil.prems(4) okIv_start_in_cover [of lo hi y] by simp
    with Nil.prems(5) show ?thesis by simp
  qed
next
  case (Cons x xs)
  show ?case
  proof (cases ys)
    case Nil
    have "startT x \<in> Cover (x # xs)"
      using Cons.prems(2) okIv_start_in_cover [of lo hi x] by simp
    with Cons.prems(5) Nil show ?thesis by simp
  next
    case (Cons y ys')
    note X = Cons.prems(1) Cons.prems(2)
    note Y = Cons.prems(3) [unfolded Cons] Cons.prems(4) [unfolded Cons]
    note C = Cons.prems(5) [unfolded Cons]
    have okx: "okIv lo hi x" and oky: "okIv lo hi y" using X Y by simp_all
    have sx: "startT x \<in> Cover (x # xs)" using okIv_start_in_cover [OF okx] by simp
    have sy: "startT y \<in> Cover (y # ys')" using okIv_start_in_cover [OF oky] by simp
    have "startT x \<in> Cover (y # ys')" using sx unfolding C .
    then have "startT y \<le> startT x" by (rule canon_head_least [OF Y])
    moreover have "startT y \<in> Cover (x # xs)" using sy unfolding C [symmetric] .
    then have "startT x \<le> startT y" by (rule canon_head_least [OF X])
    moreover have "endT x \<le> endT y" using canon_heads_equal [OF X Y C] .
    moreover have "endT y \<le> endT x" using canon_heads_equal [OF Y X C [symmetric]] .
    ultimately have xy: "x = y" using okIv_eq [OF okx oky] by simp
    have "t \<notin> cover x" if "t \<in> Cover xs" for t
      using canon_tail_after [OF X(1) that] msPerDay_pos cover_bounds [of t x] by linarith
    then have dx: "Cover xs = Cover (x # xs) - cover x"
      by auto
    have "t \<notin> cover y" if "t \<in> Cover ys'" for t
      using canon_tail_after [OF Y(1) that] msPerDay_pos cover_bounds [of t y] by linarith
    then have dy: "Cover ys' = Cover (y # ys') - cover y"
      by auto
    have "Cover xs = Cover ys'" using dx dy C xy by simp
    moreover have "sorted_wrt sep xs" "sorted_wrt sep ys'" using X Y by simp_all
    moreover have "\<forall>r \<in> set xs. okIv lo hi r" "\<forall>r \<in> set ys'. okIv lo hi r"
      using X Y by simp_all
    ultimately have "xs = ys'" by (intro Cons.IH)
    with xy Cons show ?thesis by simp
  qed
qed

text \<open>The merged runs depend only on the days that the intervals cover.\<close>

lemma merged_determined_by_cover:
  assumes hi: "hi + msPerDay \<le> 8640000000000000" and lo: "- 8640000000000000 \<le> lo"
    and xs: "\<forall>r \<in> set xs. okIv lo hi r" and ys: "\<forall>r \<in> set ys. okIv lo hi r"
    and c: "Cover xs = Cover ys"
  shows "foldl mergeStep [] (sortRanges xs) = foldl mergeStep [] (sortRanges ys)"
proof -
  have v: "\<forall>r \<in> set zs. okIv lo hi r \<Longrightarrow> \<forall>r \<in> set zs. iv_start r \<noteq> InvalidDate" for zs
    by (auto simp: okIv_def)
  have m: "(\<forall>r \<in> set (foldl mergeStep [] (sortRanges zs)). okIv lo hi r) \<and>
           sorted_wrt sep (foldl mergeStep [] (sortRanges zs)) \<and>
           Cover (foldl mergeStep [] (sortRanges zs)) = Cover [] \<union> Cover (sortRanges zs)"
    if "\<forall>r \<in> set zs. okIv lo hi r" for zs
    using that sorted_sortRanges [OF v [OF that]]
    by (intro foldl_mergeStep_ok [OF hi lo]) (simp_all add: set_sortRanges)
  have "Cover (sortRanges xs) = Cover (sortRanges ys)"
    using c Cover_set [OF set_sortRanges [of xs]] Cover_set [OF set_sortRanges [of ys]] by simp
  then show ?thesis
    using m [OF xs] m [OF ys] by (intro canon_unique [of _ lo hi]) simp_all
qed

section \<open>Splitting an interval into two adjacent intervals\<close>

lemma clampDate_clampT: "clampDate (Date t) (Date rs) (Date re) = Date (clampT rs re t)"
  by (simp add: clampDate_Date clampT_def)

lemma clampT_dvd: "msPerDay dvd rs \<Longrightarrow> msPerDay dvd re \<Longrightarrow> msPerDay dvd t \<Longrightarrow> msPerDay dvd clampT rs re t"
  by (simp add: clampT_def)

lemma clampT_mono: "s \<le> t \<Longrightarrow> rs \<le> re \<Longrightarrow> clampT rs re s \<le> clampT rs re t"
  by (simp add: clampT_def)

lemma clampT_bounds: "rs \<le> re \<Longrightarrow> rs \<le> clampT rs re t \<and> clampT rs re t \<le> re"
  by (simp add: clampT_def)

lemma clampT_step: "0 \<le> m \<Longrightarrow> rs \<le> re \<Longrightarrow> clampT rs re (t + m) \<le> clampT rs re t + m"
  by (simp add: clampT_def)

lemma addressRange_Some:
  assumes "parseDate num (startDate b) = Some (Date s)"
    and "parseDate num (case endDate b of None \<Rightarrow> range_end rng | Some e \<Rightarrow> e) = Some (Date e)"
    and "s \<le> e"
  shows "addressRange num rng (Date rs) (Date re) b =
           Some \<lparr>iv_start = Date (clampT rs re s), iv_end = Date (clampT rs re e)\<rparr>"
  using assms by (simp add: addressRange_def date_lt_def clampDate_clampT)

lemma okIv_clamped:
  assumes "msPerDay dvd rs" "msPerDay dvd re" "msPerDay dvd s" "msPerDay dvd e" "rs \<le> re" "s \<le> e"
  shows "okIv rs re \<lparr>iv_start = Date (clampT rs re s), iv_end = Date (clampT rs re e)\<rparr>"
  using assms clampT_bounds [of rs re s] clampT_bounds [of rs re e] clampT_mono [of s e rs re]
  by (simp add: okIv_def clampT_dvd)

lemma okIv_addressRange:
  assumes rng: "msPerDay dvd rs" "msPerDay dvd re" "rs \<le> re"
    and v: "parseDate num (startDate b) \<noteq> Some InvalidDate"
      "parseDate num (case endDate b of None \<Rightarrow> range_end rng | Some e \<Rightarrow> e) \<noteq> Some InvalidDate"
    and r: "addressRange num rng (Date rs) (Date re) b = Some r"
  shows "okIv rs re r"
proof -
  from r obtain sd ed where p: "parseDate num (startDate b) = Some sd"
      "parseDate num (case endDate b of None \<Rightarrow> range_end rng | Some e \<Rightarrow> e) = Some ed"
      "\<not> date_lt ed sd"
    by (auto simp: addressRange_def split: option.splits if_splits)
  with v obtain s e where d: "sd = Date s" "ed = Date e"
    by (cases sd; cases ed) auto
  have se: "s \<le> e" using p(3) d by (simp add: date_lt_def)
  have "r = \<lparr>iv_start = Date (clampT rs re s), iv_end = Date (clampT rs re e)\<rparr>"
    using r addressRange_Some [of num b s rng e rs re] p d se by simp
  moreover have "msPerDay dvd s" "msPerDay dvd e"
    using parseDate_Date_aligned p d by blast+
  ultimately show ?thesis using rng se by (simp add: okIv_clamped)
qed

lemma okIv_map_filter:
  assumes rng: "msPerDay dvd rs" "msPerDay dvd re" "rs \<le> re"
    and v: "\<forall>b \<in> set bs. parseDate num (startDate b) \<noteq> Some InvalidDate \<and>
       parseDate num (case endDate b of None \<Rightarrow> range_end rng | Some e \<Rightarrow> e) \<noteq> Some InvalidDate"
  shows "\<forall>r \<in> set (List.map_filter (addressRange num rng (Date rs) (Date re)) bs). okIv rs re r"
proof
  fix r assume "r \<in> set (List.map_filter (addressRange num rng (Date rs) (Date re)) bs)"
  then obtain b where b: "b \<in> set bs" "addressRange num rng (Date rs) (Date re) b = Some r"
    by (auto simp: List.map_filter_def)
  with v show "okIv rs re r" by (intro okIv_addressRange [OF rng _ _ b(2)]) auto
qed

lemma cover_split:
  assumes al: "msPerDay dvd rs" "msPerDay dvd re" "msPerDay dvd D"
    and ord: "rs \<le> re" "s \<le> D" "D + msPerDay \<le> e"
  shows "cover \<lparr>iv_start = Date (clampT rs re s), iv_end = Date (clampT rs re D)\<rparr> \<union>
         cover \<lparr>iv_start = Date (clampT rs re (D + msPerDay)), iv_end = Date (clampT rs re e)\<rparr> =
         cover \<lparr>iv_start = Date (clampT rs re s), iv_end = Date (clampT rs re e)\<rparr>"
proof (rule set_eqI)
  fix t
  note p = msPerDay_pos
  have m1: "clampT rs re s \<le> clampT rs re D" using ord by (intro clampT_mono) simp_all
  have m2: "clampT rs re D \<le> clampT rs re (D + msPerDay)"
    using ord p by (intro clampT_mono) simp_all
  have m3: "clampT rs re (D + msPerDay) \<le> clampT rs re e" using ord by (intro clampT_mono) simp_all
  have st: "clampT rs re (D + msPerDay) \<le> clampT rs re D + msPerDay"
    using ord p by (intro clampT_step) simp_all
  have dD: "msPerDay dvd clampT rs re D" using al by (intro clampT_dvd)
  show "t \<in> cover \<lparr>iv_start = Date (clampT rs re s), iv_end = Date (clampT rs re D)\<rparr> \<union>
         cover \<lparr>iv_start = Date (clampT rs re (D + msPerDay)), iv_end = Date (clampT rs re e)\<rparr> \<longleftrightarrow>
        t \<in> cover \<lparr>iv_start = Date (clampT rs re s), iv_end = Date (clampT rs re e)\<rparr>"
  proof (cases "msPerDay dvd t \<and> clampT rs re D < t")
    case True
    then have "clampT rs re D + msPerDay \<le> t"
      using aligned_less_step [of "clampT rs re D" t] dD by simp
    with True m1 m2 m3 st show ?thesis by (auto simp: cover_def)
  next
    case False
    with m1 m2 m3 show ?thesis by (auto simp: cover_def)
  qed
qed

lemma map_filter_append: "List.map_filter f (xs @ ys) = List.map_filter f xs @ List.map_filter f ys"
  by (simp add: List.map_filter_def)

lemma max_time_aligned: "msPerDay dvd re \<Longrightarrow> re < 8640000000000000 \<Longrightarrow> re + msPerDay \<le> 8640000000000000"
  by (rule aligned_less_step) (simp_all add: msPerDay_def)

lemma split_interval_same_runs:
  assumes rng: "parseDate num (range_start rng) = Some (Date rs)"
      "parseDate num (range_end rng) = Some (Date re)" "rs \<le> re" "re < 8640000000000000"
    and a: "parseDate num (startDate a) = Some (Date s)"
      "parseDate num (case endDate a of None \<Rightarrow> range_end rng | Some e \<Rightarrow> e) = Some (Date e)"
    and d: "parseDate num dS = Some (Date D)" "parseDate num d1S = Some (Date (D + msPerDay))"
      "s \<le> D" "D < e"
    and others: "\<forall>b \<in> set (xs @ ys). parseDate num (startDate b) \<noteq> Some InvalidDate \<and>
       parseDate num (case endDate b of None \<Rightarrow> range_end rng | Some e \<Rightarrow> e) \<noteq> Some InvalidDate"
  shows "getCoverageGaps num (xs @ [a\<lparr>endDate := Some dS\<rparr>, a\<lparr>startDate := d1S\<rparr>] @ ys) rng =
         getCoverageGaps num (xs @ [a] @ ys) rng"
proof -
  note p = msPerDay_pos
  have al: "msPerDay dvd rs" "msPerDay dvd re" "msPerDay dvd s" "msPerDay dvd e" "msPerDay dvd D"
    using parseDate_Date_aligned rng a d by blast+
  have bd: "- 8640000000000000 \<le> rs"
    using parseDate_Date_aligned [OF rng(1)] by linarith
  have hi: "re + msPerDay \<le> 8640000000000000"
    using al rng(4) by (intro max_time_aligned)
  have De: "D + msPerDay \<le> e" using al d by (intro aligned_less_step)
  let ?f = "addressRange num rng (Date rs) (Date re)"
  let ?I = "\<lparr>iv_start = Date (clampT rs re s), iv_end = Date (clampT rs re e)\<rparr>"
  let ?I1 = "\<lparr>iv_start = Date (clampT rs re s), iv_end = Date (clampT rs re D)\<rparr>"
  let ?I2 = "\<lparr>iv_start = Date (clampT rs re (D + msPerDay)), iv_end = Date (clampT rs re e)\<rparr>"
  let ?X = "List.map_filter ?f xs" and ?Y = "List.map_filter ?f ys"
  have r0: "?f a = Some ?I"
    using a d De p by (intro addressRange_Some) simp_all
  have r1: "?f (a\<lparr>endDate := Some dS\<rparr>) = Some ?I1"
    using a d by (intro addressRange_Some) simp_all
  have r2: "?f (a\<lparr>startDate := d1S\<rparr>) = Some ?I2"
    using a d De by (intro addressRange_Some) simp_all
  have L0: "List.map_filter ?f (xs @ [a] @ ys) = ?X @ [?I] @ ?Y"
    by (simp add: map_filter_append List.map_filter_simps r0)
  have L1: "List.map_filter ?f (xs @ [a\<lparr>endDate := Some dS\<rparr>, a\<lparr>startDate := d1S\<rparr>] @ ys) =
      ?X @ [?I1, ?I2] @ ?Y"
    by (simp add: map_filter_append List.map_filter_simps r1 r2)
  have okX: "\<forall>r \<in> set ?X. okIv rs re r" and okY: "\<forall>r \<in> set ?Y. okIv rs re r"
    using others by (intro okIv_map_filter al rng(3); simp)+
  have okI: "okIv rs re ?I" "okIv rs re ?I1" "okIv rs re ?I2"
    using al rng(3) d De p by (intro okIv_clamped; simp)+
  have c: "Cover (?X @ [?I1, ?I2] @ ?Y) = Cover (?X @ [?I] @ ?Y)"
    using cover_split [OF al(1,2,5) rng(3) d(3) De] by auto
  have "foldl mergeStep [] (sortRanges (?X @ [?I1, ?I2] @ ?Y)) =
        foldl mergeStep [] (sortRanges (?X @ [?I] @ ?Y))"
    using okX okY okI c by (intro merged_determined_by_cover [OF hi bd]) auto
  moreover have "sortRanges (?X @ [?I1, ?I2] @ ?Y) \<noteq> []" "sortRanges (?X @ [?I] @ ?Y) \<noteq> []"
    by (simp_all add: sortRanges_Nil_iff)
  ultimately show ?thesis
    using rng by (simp add: getCoverageGaps_def addressRanges_def L0 L1 del: append.simps)
qed

lemma split_single_same_runs:
  assumes rng: "parseDate num (range_start rng) = Some (Date rs)"
      "parseDate num (range_end rng) = Some (Date re)" "rs \<le> re"
    and a: "parseDate num (startDate a) = Some (Date s)"
      "parseDate num (case endDate a of None \<Rightarrow> range_end rng | Some e \<Rightarrow> e) = Some (Date e)"
    and d: "parseDate num dS = Some (Date D)" "parseDate num d1S = Some (Date (D + msPerDay))"
      "s \<le> D" "D < e"
  shows "getCoverageGaps num [a\<lparr>endDate := Some dS\<rparr>, a\<lparr>startDate := d1S\<rparr>] rng =
         getCoverageGaps num [a] rng"
proof -
  note p = msPerDay_pos
  have al: "msPerDay dvd rs" "msPerDay dvd re" "msPerDay dvd s" "msPerDay dvd e" "msPerDay dvd D"
    using parseDate_Date_aligned rng a d by blast+
  have bd: "\<bar>rs\<bar> \<le> 8640000000000000" "\<bar>re\<bar> \<le> 8640000000000000"
    using parseDate_Date_aligned rng by blast+
  have De: "D + msPerDay \<le> e" using al d by (intro aligned_less_step)
  let ?f = "addressRange num rng (Date rs) (Date re)"
  let ?I = "\<lparr>iv_start = Date (clampT rs re s), iv_end = Date (clampT rs re e)\<rparr>"
  let ?I1 = "\<lparr>iv_start = Date (clampT rs re s), iv_end = Date (clampT rs re D)\<rparr>"
  let ?I2 = "\<lparr>iv_start = Date (clampT rs re (D + msPerDay)), iv_end = Date (clampT rs re e)\<rparr>"
  have r0: "?f a = Some ?I"
    using a d De p by (intro addressRange_Some) simp_all
  have r1: "?f (a\<lparr>endDate := Some dS\<rparr>) = Some ?I1"
    using a d by (intro addressRange_Some) simp_all
  have r2: "?f (a\<lparr>startDate := d1S\<rparr>) = Some ?I2"
    using a d De by (intro addressRange_Some) simp_all
  have m1: "clampT rs re s \<le> clampT rs re (D + msPerDay)"
    using d p rng(3) by (intro clampT_mono) simp_all
  have m2: "clampT rs re D \<le> clampT rs re e"
    using d rng(3) by (intro clampT_mono) simp_all
  have st: "clampT rs re (D + msPerDay) \<le> clampT rs re D + msPerDay"
    using p rng(3) by (intro clampT_step) simp_all
  have srt: "sortRanges [?I1, ?I2] = [?I1, ?I2]"
    using m1 by (simp add: sortRanges_def compareStart_def)
  have R1: "addressRanges num rng (Date rs) (Date re)
      [a\<lparr>endDate := Some dS\<rparr>, a\<lparr>startDate := d1S\<rparr>] = [?I1, ?I2]"
    by (simp add: addressRanges_def List.map_filter_simps r1 r2 srt del: sortRanges_def)
  have R0: "addressRanges num rng (Date rs) (Date re) [a] = [?I]"
    by (simp add: addressRanges_def List.map_filter_simps r0 sortRanges_def)
  have M0: "foldl mergeStep [] [?I] = [?I]"
    by (simp add: mergeStep_def)
  have "emitGaps (foldl mergeStep [] [?I1, ?I2]) (Date rs) (Date re) =
        emitGaps [?I] (Date rs) (Date re)"
  proof (cases "clampT rs re D + msPerDay \<le> 8640000000000000")
    case True
    have "- 8640000000000000 \<le> clampT rs re D"
      using clampT_bounds [OF rng(3), of D] bd by linarith
    with True have "\<bar>clampT rs re D + msPerDay\<bar> \<le> 8640000000000000"
      using p by linarith
    then have ad: "addDays (Date (clampT rs re D)) 1 = Date (clampT rs re D + msPerDay)"
      by (rule addDays_plus)
    have "foldl mergeStep [] [?I1, ?I2] = [?I]"
      using st m2 by (auto simp: mergeStep_def Let_def ad date_le_def date_gt_def date_lt_def)
    then show ?thesis by simp
  next
    case False
    have "clampT rs re D \<le> re" using clampT_bounds [OF rng(3)] by simp
    with False have top: "8640000000000000 < clampT rs re D + msPerDay" by simp
    then have inv: "addDays (Date (clampT rs re D)) 1 = InvalidDate"
      by (simp add: addDays_Date TimeClip_def)
    have "re < clampT rs re D + msPerDay" using top bd by linarith
    moreover have "msPerDay dvd clampT rs re D" using al by (intro clampT_dvd)
    ultimately have "\<not> clampT rs re D < re"
      using aligned_less_step [of "clampT rs re D" re] al by auto
    then have eq: "clampT rs re D = re" using clampT_bounds [OF rng(3), of D] by simp
    then have eqe: "clampT rs re e = re" using m2 clampT_bounds [OF rng(3), of e] by simp
    have mg: "foldl mergeStep [] [?I1, ?I2] = [?I1, ?I2]"
      by (simp add: mergeStep_def inv date_le_def)
    have ig: "internalGaps [?I1, ?I2] = Inr []"
      by (simp add: inv date_le_def)
    have tg1: "trailingGap [?I1, ?I2] (Date re) = Inr []"
      by (simp add: trailingGap_def eqe date_lt_def)
    have tg0: "trailingGap [?I] (Date re) = Inr []"
      by (simp add: trailingGap_def eqe date_lt_def)
    have lg: "leadingGap [?I1, ?I2] (Date rs) = leadingGap [?I] (Date rs)"
      by (simp add: leadingGap_def)
    show ?thesis
      unfolding mg emitGaps_def ig tg1 tg0 lg by (simp split: sum.splits)
  qed
  then show ?thesis
    using rng by (simp add: getCoverageGaps_def R0 R1 M0 del: foldl_Cons)
qed

section \<open>Reading, updating and deleting in the store\<close>

lemma readStore_cases:
  assumes "readStore w = (Inr (store, shared), w1)"
  shows "uploads w1 = uploads w \<and> emptyStore w1 = emptyStore w \<and>
         store_writable w1 = store_writable w \<and>
         store_file w1 = Content (Some (addresses store)) (Some (documents store)) \<or>
         w1 = w \<and> \<not> shared \<and>
         (\<exists>a d. store_file w = Content a d \<and>
            addresses store = (case a of None \<Rightarrow> [] | Some xs \<Rightarrow> xs) \<and>
            documents store = (case d of None \<Rightarrow> [] | Some xs \<Rightarrow> xs))"
  using assms
  by (auto simp: readStore_def writeStore_def split: store_file.splits if_splits)

lemma readStore_again:
  assumes "readStore w = (Inr (store, shared), w1)"
  shows "readStore w1 = (Inr (store, False), w1)"
  using assms
  by (auto simp: readStore_def writeStore_def split: store_file.splits if_splits)

lemma readStore_frame:
  assumes "readStore w = (Inr (store, shared), w1)"
  shows "uploads w1 = uploads w" "emptyStore w1 = emptyStore w"
    "store_writable w1 = store_writable w"
  using assms
  by (auto simp: readStore_def writeStore_def split: store_file.splits if_splits)

lemma readStore_written:
  "readStore (w\<lparr>store_file := Content (Some as) (Some ds)\<rparr>) =
     (Inr (\<lparr>addresses = as, documents = ds\<rparr>, False),
      w\<lparr>store_file := Content (Some as) (Some ds)\<rparr>)"
  by (simp add: readStore_def)

lemma findIndex_None: "findIndex P xs = None \<longleftrightarrow> (\<forall>x \<in> set xs. \<not> P x)"
  by (induction xs) auto

lemma findIndex_Some:
  "findIndex P xs = Some i \<Longrightarrow> i < length xs \<and> P (xs ! i) \<and> (\<forall>j < i. \<not> P (xs ! j))"
proof (induction xs arbitrary: i)
  case Nil
  then show ?case by simp
next
  case (Cons x xs)
  show ?case
  proof (cases "P x")
    case True
    with Cons.prems show ?thesis by simp
  next
    case False
    with Cons.prems obtain k where k: "findIndex P xs = Some k" "i = Suc k"
      by auto
    from Cons.IH [OF k(1)] False k(2) show ?thesis
      by (auto simp: less_Suc_eq_0_disj)
  qed
qed

lemma spreadUpdates_frame:
  "id_address (spreadUpdates a u now) = id_address a"
  "createdAt (spreadUpdates a u now) = createdAt a"
  "updatedAt (spreadUpdates a u now) = now"
  "line1 (spreadUpdates a u now) = (case u_line1 u of None \<Rightarrow> line1 a | Some v \<Rightarrow> v)"
  "line2 (spreadUpdates a u now) = (case u_line2 u of None \<Rightarrow> line2 a | Some v \<Rightarrow> v)"
  "town (spreadUpdates a u now) = (case u_town u of None \<Rightarrow> town a | Some v \<Rightarrow> v)"
  "county (spreadUpdates a u now) = (case u_county u of None \<Rightarrow> county a | Some v \<Rightarrow> v)"
  "postcode (spreadUpdates a u now) = (case u_postcode u of None \<Rightarrow> postcode a | Some v \<Rightarrow> v)"
  "country (spreadUpdates a u now) = (case u_country u of None \<Rightarrow> country a | Some v \<Rightarrow> v)"
  "startDate (spreadUpdates a u now) = (case u_startDate u of None \<Rightarrow> startDate a | Some v \<Rightarrow> v)"
  "endDate (spreadUpdates a u now) = (case u_endDate u of None \<Rightarrow> endDate a | Some v \<Rightarrow> v)"
  by (simp_all add: spreadUpdates_def)

lemma updateAddress_not_found:
  assumes "readStore w = (Inr (store, shared), w1)"
    and "ident \<notin> id_address ` set (addresses store)"
  shows "updateAddress ident updates now w = (Inr None, w1)"
proof -
  have "findIndex (\<lambda>address. id_address address = ident) (addresses store) = None"
    using assms(2) by (auto simp: findIndex_None)
  then show ?thesis using assms(1) by (simp add: updateAddress_def)
qed

lemma updateAddress_found:
  assumes r: "readStore w = (Inr (store, shared), w1)"
    and w: "store_writable w"
    and i: "findIndex (\<lambda>address. id_address address = ident) (addresses store) = Some index"
  shows "\<exists>w'. updateAddress ident updates now w =
           (Inr (Some (spreadUpdates (addresses store ! index) updates now)), w') \<and>
         readStore w' =
           (Inr (\<lparr>addresses = (addresses store)
                     [index := spreadUpdates (addresses store ! index) updates now],
                  documents = documents store\<rparr>, False), w') \<and>
         uploads w' = uploads w"
proof -
  let ?updated = "spreadUpdates (addresses store ! index) updates now"
  let ?store' = "store\<lparr>addresses := (addresses store)[index := ?updated]\<rparr>"
  let ?w2 = "if shared then w1\<lparr>emptyStore := ?store'\<rparr> else w1"
  let ?w3 = "?w2\<lparr>store_file := Content (Some (addresses ?store')) (Some (documents ?store'))\<rparr>"
  have wr: "store_writable ?w2" using w readStore_frame(3) [OF r] by simp
  then have ws: "writeStore ?store' ?w2 = (Inr (), ?w3)"
    by (simp add: writeStore_def)
  have u: "updateAddress ident updates now w = (Inr (Some ?updated), ?w3)"
    using r i ws by (simp add: updateAddress_def Let_def)
  have "readStore ?w3 =
      (Inr (\<lparr>addresses = (addresses store)[index := ?updated], documents = documents store\<rparr>,
            False), ?w3)"
    using readStore_written [where w = ?w2 and as = "addresses ?store'" and ds = "documents ?store'"]
    by simp
  moreover have "uploads ?w3 = uploads w" using readStore_frame(1) [OF r] by simp
  ultimately show ?thesis using u by blast
qed

lemma deleteUploadFile_ok:
  assumes "uploads w (getUploadPath doc) \<noteq> Some Undeletable"
  shows "deleteUploadFile doc w = (Inr (), w\<lparr>uploads := (uploads w)(getUploadPath doc := None)\<rparr>)"
proof (cases "uploads w (getUploadPath doc)")
  case None
  then have "(uploads w)(getUploadPath doc := None) = uploads w" by auto
  with None show ?thesis by (simp add: deleteUploadFile_def unlink_def)
next
  case (Some f)
  with assms have "f = Removable" by (cases f) auto
  with Some show ?thesis by (simp add: deleteUploadFile_def unlink_def)
qed

lemma deleteUploadFile_fail:
  assumes "uploads w (getUploadPath doc) = Some Undeletable"
  shows "deleteUploadFile doc w = (Inl OtherError, w)"
  using assms by (simp add: deleteUploadFile_def unlink_def)

lemma removeFiles_empty [simp]: "removeFiles {} w = w"
  by (simp add: removeFiles_def)

lemma removeFiles_fields [simp]:
  "uploads (removeFiles ps w) = (\<lambda>p. if p \<in> ps then None else uploads w p)"
  "store_file (removeFiles ps w) = store_file w"
  "store_writable (removeFiles ps w) = store_writable w"
  "emptyStore (removeFiles ps w) = emptyStore w"
  by (simp_all add: removeFiles_def)

lemma removeFiles_insert:
  "removeFiles ps (w\<lparr>uploads := (uploads w)(p := None)\<rparr>) = removeFiles (insert p ps) w"
  by (auto simp: removeFiles_def fun_eq_iff)

lemma deleteUploadFiles_ok:
  "\<forall>doc \<in> set docs. uploads w (getUploadPath doc) \<noteq> Some Undeletable \<Longrightarrow>
   deleteUploadFiles docs w = (Inr (), removeFiles (getUploadPath ` set docs) w)"
proof (induction docs arbitrary: w)
  case Nil
  then show ?case by simp
next
  case (Cons doc docs)
  let ?w' = "w\<lparr>uploads := (uploads w)(getUploadPath doc := None)\<rparr>"
  have d: "deleteUploadFile doc w = (Inr (), ?w')"
    using Cons.prems by (intro deleteUploadFile_ok) simp
  have "\<forall>x \<in> set docs. uploads ?w' (getUploadPath x) \<noteq> Some Undeletable"
    using Cons.prems by simp
  from Cons.IH [OF this] show ?case
    by (simp add: d removeFiles_insert)
qed

lemma deleteUploadFiles_fail:
  assumes "\<forall>doc \<in> set pre. uploads w (getUploadPath doc) \<noteq> Some Undeletable"
    and "uploads w (getUploadPath bad) = Some Undeletable"
  shows "deleteUploadFiles (pre @ bad # post) w =
           (Inl OtherError, removeFiles (getUploadPath ` set pre) w)"
  using assms
proof (induction pre arbitrary: w)
  case Nil
  then show ?case by (simp add: deleteUploadFile_fail)
next
  case (Cons doc pre)
  let ?w' = "w\<lparr>uploads := (uploads w)(getUploadPath doc := None)\<rparr>"
  have d: "deleteUploadFile doc w = (Inr (), ?w')"
    using Cons.prems by (intro deleteUploadFile_ok) simp
  have ne: "getUploadPath bad \<noteq> getUploadPath doc"
    using Cons.prems by auto
  have "\<forall>x \<in> set pre. uploads ?w' (getUploadPath x) \<noteq> Some Undeletable"
    using Cons.prems by simp
  moreover have "uploads ?w' (getUploadPath bad) = Some Undeletable"
    using Cons.prems(2) ne by simp
  ultimately have "deleteUploadFiles (pre @ bad # post) ?w' =
      (Inl OtherError, removeFiles (getUploadPath ` set pre) ?w')"
    by (rule Cons.IH)
  then show ?case by (simp add: d removeFiles_insert)
qed

lemma deleteAddress_ok:
  assumes r: "readStore w = (Inr (store, shared), w1)" and wr: "store_writable w"
    and ok: "\<forall>doc \<in> set (documents store).
       addressId doc = ident \<longrightarrow> uploads w (getUploadPath doc) \<noteq> Some Undeletable"
  shows "deleteAddress ident w =
     (Inr (),
      (removeFiles (getUploadPath ` {doc \<in> set (documents store). addressId doc = ident}) w1)
        \<lparr>store_file :=
           Content (Some (filter (\<lambda>address. id_address address \<noteq> ident) (addresses store)))
                   (Some (filter (\<lambda>doc. addressId doc \<noteq> ident) (documents store)))\<rparr>)"
proof -
  let ?removed = "filter (\<lambda>doc. addressId doc = ident) (documents store)"
  have "\<forall>doc \<in> set ?removed. uploads w1 (getUploadPath doc) \<noteq> Some Undeletable"
    using ok readStore_frame(1) [OF r] by simp
  then have d: "deleteUploadFiles ?removed w1 =
      (Inr (), removeFiles (getUploadPath ` set ?removed) w1)"
    by (rule deleteUploadFiles_ok)
  have s: "set ?removed = {doc \<in> set (documents store). addressId doc = ident}"
    by auto
  have "store_writable (removeFiles (getUploadPath ` set ?removed) w1)"
    using wr readStore_frame(3) [OF r] by simp
  then show ?thesis
    using r d unfolding s by (simp add: deleteAddress_def Let_def writeStore_def)
qed

lemma deleteAddress_fail:
  assumes r: "readStore w = (Inr (store, shared), w1)"
    and sp: "filter (\<lambda>doc. addressId doc = ident) (documents store) = pre @ bad # post"
    and ok: "\<forall>doc \<in> set pre. uploads w (getUploadPath doc) \<noteq> Some Undeletable"
    and bad: "uploads w (getUploadPath bad) = Some Undeletable"
  shows "deleteAddress ident w = (Inl OtherError, removeFiles (getUploadPath ` set pre) w1)"
proof -
  have "deleteUploadFiles (pre @ bad # post) w1 =
      (Inl OtherError, removeFiles (getUploadPath ` set pre) w1)"
    using ok bad readStore_frame(1) [OF r] by (intro deleteUploadFiles_fail) simp_all
  then show ?thesis using r sp by (simp add: deleteAddress_def Let_def)
qed

section \<open>Concrete dates\<close>

lemmas parse_eval =
  parseDate_def decimalNumber_def isDigit_def falsy_def Date_UTC_def jsnum_pred_def
  MakeDay_def MakeFullYear_def trunc_def TimeClip_def DayFromYear_def daysBeforeMonth_def
  InLeapYear_def DaysInYear_def msPerDay_def

lemmas format_eval =
  formatDate_def toISODate_def YearFromTime_def YearFromDay_def Day_def yearSearch.simps
  MonthFromTime_def DateFromTime_def monthOfDay_def DayWithinYear_def digitChar_def
  isoDate_def pad2_def pad4_def pad6_def DayFromYear_def daysBeforeMonth_def
  InLeapYear_def DaysInYear_def msPerDay_def

lemmas gaps_eval =
  getCoverageGaps_def addressRanges_def addressRange_def List.map_filter_def clampDate_def
  date_lt_def date_le_def date_gt_def date_ge_def sortRanges_def compareStart_def
  mergeStep_def emitGaps_def leadingGap_def trailingGap_def mkGap_def addDays_def
  setUTCDate_def getUTCDate_def jsnum_add_def TimeWithinDay_def address_with_dates_def

lemma parse_2021_01_01: "parseDate decimalNumber ''2021-01-01'' = Some (Date 1609459200000)"
  by (simp add: parse_eval)

lemma parse_2022_01_01: "parseDate decimalNumber ''2022-01-01'' = Some (Date 1640995200000)"
  by (simp add: parse_eval)

lemma parse_2025_01_01: "parseDate decimalNumber ''2025-01-01'' = Some (Date 1735689600000)"
  by (simp add: parse_eval)

lemma parse_2021_03_01: "parseDate decimalNumber ''2021-03-01'' = Some (Date 1614556800000)"
  by (simp add: parse_eval)

lemma parse_2021_05_01: "parseDate decimalNumber ''2021-05-01'' = Some (Date 1619827200000)"
  by (simp add: parse_eval)


lemma parse_2021_09_01: "parseDate decimalNumber ''2021-09-01'' = Some (Date 1630454400000)"
  by (simp add: parse_eval)

lemma parse_2021_03_02: "parseDate decimalNumber ''2021-03-02'' = Some (Date 1614643200000)"
  by (simp add: parse_eval)



lemma gaps_two_addresses:
  "getCoverageGaps decimalNumber
     [address_with_dates ''2021-01-01'' (Some ''2021-05-01''),
      address_with_dates ''2021-09-01'' None]
     \<lparr>range_start = ''2021-01-01'', range_end = ''2022-01-01''\<rparr> =
   Inr [\<lparr>gap_start = ''2021-05-02'', gap_end = ''2021-08-31'',
         isLeading = False, isTrailing = False\<rparr>]"
  by (simp add: gaps_eval parse_eval format_eval)

lemma gaps_one_address:
  "getCoverageGaps decimalNumber [address_with_dates ''2021-01-01'' (Some ''2021-03-01'')]
     \<lparr>range_start = ''2021-01-01'', range_end = ''2021-05-01''\<rparr> =
   Inr [\<lparr>gap_start = ''2021-03-02'', gap_end = ''2021-05-01'',
         isLeading = False, isTrailing = True\<rparr>]"
  by (simp add: gaps_eval parse_eval format_eval)

lemma parse_2010_01_01: "parseDate decimalNumber ''2010-01-01'' = Some (Date 1262304000000)"
  by (simp add: parse_eval)

lemma parse_2011_01_01: "parseDate decimalNumber ''2011-01-01'' = Some (Date 1293840000000)"
  by (simp add: parse_eval)

lemma parse_300000_01_01: "parseDate decimalNumber ''300000-01-01'' = Some InvalidDate"
  by (simp add: parse_eval)

lemma readStore_example: "readStore example_world = (Inr (example_store, False), example_world)"
  by (simp add: readStore_def example_world_def example_store_def)

lemma readStore_removable:
  "readStore removable_world = (Inr (example_store, False), removable_world)"
  by (simp add: readStore_def removable_world_def example_world_def example_store_def)

section \<open>What the null tests catch\<close>

text \<open>
  \<^verbatim>\<open>parseDate\<close> returns \<^verbatim>\<open>null\<close> when a field is missing, empty, zero or not a number, and an
  Invalid Date object when its three fields are numbers that lead outside the range of
  time values. The tests \<^verbatim>\<open>!start || !end || end < start\<close> of the Gap Engine and
  \<^verbatim>\<open>!addressStart || !addressEnd || !start || !end\<close> of the filter see the first and not the
  second: an Invalid Date is an object, and every comparison with it is false. The lemmas
  of this section are about the inputs that the tests catch.
\<close>

text \<open>
  When the range passes the guard and the callback of \<^verbatim>\<open>addresses.map\<close> yields \<^verbatim>\<open>null\<close> for
  every address, as it does for the empty list, the result is one gap whose bounds are the
  strings \<^verbatim>\<open>range.start\<close> and \<^verbatim>\<open>range.end\<close> and whose two flags are true.
\<close>

lemma null_for_every_address_full_range_gap:
  assumes "parseDate num (range_start rng) = Some rs"
    and "parseDate num (range_end rng) = Some re"
    and "\<not> date_lt re rs"
    and "\<forall>a \<in> set addrs. addressRange num rng rs re a = None"
  shows "getCoverageGaps num addrs rng =
           Inr [\<lparr>gap_start = range_start rng, gap_end = range_end rng,
                 isLeading = True, isTrailing = True\<rparr>]"
proof -
  have "List.map_filter (addressRange num rng rs re) addrs = []"
    using assms(4) by (induction addrs) (simp_all add: List.map_filter_simps)
  then have "addressRanges num rng rs re addrs = []"
    by (simp add: addressRanges_def sortRanges_def)
  with assms(1-3) show ?thesis by (simp add: getCoverageGaps_def)
qed

text \<open>
  An address for which \<^verbatim>\<open>parseDate\<close> returns \<^verbatim>\<open>null\<close> on the start or on the effective end,
  or whose effective end is before its start, is dropped by the callback: the result is
  the result for the list without it, and it is a list.
\<close>

lemma null_or_inverted_address_discarded:
  assumes "parseDate num (startDate a) = None \<or>
           parseDate num (case endDate a of None \<Rightarrow> range_end rng | Some e \<Rightarrow> e) = None \<or>
           (\<exists>s e. parseDate num (startDate a) = Some s \<and>
                  parseDate num (case endDate a of None \<Rightarrow> range_end rng | Some e \<Rightarrow> e) = Some e \<and>
                  date_lt e s)"
  shows "getCoverageGaps num (xs @ a # ys) rng = getCoverageGaps num (xs @ ys) rng \<and>
         (\<exists>gs. getCoverageGaps num (xs @ a # ys) rng = Inr gs)"
proof -
  have "addressRange num rng rs re a = None" for rs re
    using assms by (auto simp: addressRange_def split: option.splits)
  then have "List.map_filter (addressRange num rng rs re) (xs @ a # ys) =
             List.map_filter (addressRange num rng rs re) (xs @ ys)" for rs re
    by (simp add: List.map_filter_def)
  then have r: "addressRanges num rng rs re (xs @ a # ys) = addressRanges num rng rs re (xs @ ys)"
    for rs re
    by (simp add: addressRanges_def)
  have "getCoverageGaps num (xs @ a # ys) rng = getCoverageGaps num (xs @ ys) rng"
    by (simp add: getCoverageGaps_def r split: option.splits)
  then show ?thesis using getCoverageGaps_returns by simp
qed

text \<open>
  A range for which \<^verbatim>\<open>parseDate\<close> returns \<^verbatim>\<open>null\<close> on a bound, or whose end is before its
  start, gives the empty list for every address list.
\<close>

lemma null_or_inverted_range_no_gaps:
  assumes "parseDate num (range_start rng) = None \<or> parseDate num (range_end rng) = None \<or>
           (\<exists>s e. parseDate num (range_start rng) = Some s \<and>
                  parseDate num (range_end rng) = Some e \<and> date_lt e s)"
  shows "getCoverageGaps num addrs rng = Inr []"
  using assms by (auto simp: getCoverageGaps_def split: option.splits)

text \<open>
  For a query range whose bounds parse to valid dates with start not after end:
  \<^verbatim>\<open>addressOverlapsRange\<close> is true exactly when the address's start and effective end parse
  to valid dates with start not after the range end and end not before the range start;
  every such address whose end is not before its start is kept by the Gap Engine, as the
  interval from the later of the two starts to the earlier of the two ends; and an
  address for which \<^verbatim>\<open>parseDate\<close> returns \<^verbatim>\<open>null\<close> on the start or on the effective end is
  rejected by both.
\<close>

lemma overlap_filter_on_valid_range:
  assumes "parseDate num (range_start rng) = Some (Date rs)"
    and "parseDate num (range_end rng) = Some (Date re)"
    and "rs \<le> re"
  shows "(addressOverlapsRange num (startDate a) (endDate a) (range_start rng) (range_end rng) \<longleftrightarrow>
           (\<exists>s e. parseDate num (startDate a) = Some (Date s) \<and>
                  parseDate num (case endDate a of None \<Rightarrow> range_end rng | Some e \<Rightarrow> e) =
                    Some (Date e) \<and>
                  s \<le> re \<and> rs \<le> e)) \<and>
         (\<forall>s e. parseDate num (startDate a) = Some (Date s) \<and>
                parseDate num (case endDate a of None \<Rightarrow> range_end rng | Some e \<Rightarrow> e) =
                  Some (Date e) \<and>
                s \<le> e \<and> s \<le> re \<and> rs \<le> e \<longrightarrow>
                gapEngineKeeps num a rng \<and>
                addressRange num rng (Date rs) (Date re) a =
                  Some \<lparr>iv_start = Date (max s rs), iv_end = Date (min e re)\<rparr>) \<and>
         ((parseDate num (startDate a) = None \<or>
           parseDate num (case endDate a of None \<Rightarrow> range_end rng | Some e \<Rightarrow> e) = None) \<longrightarrow>
          \<not> addressOverlapsRange num (startDate a) (endDate a) (range_start rng) (range_end rng) \<and>
          \<not> gapEngineKeeps num a rng)"
proof (intro conjI allI impI)
  show "addressOverlapsRange num (startDate a) (endDate a) (range_start rng) (range_end rng) \<longleftrightarrow>
           (\<exists>s e. parseDate num (startDate a) = Some (Date s) \<and>
                  parseDate num (case endDate a of None \<Rightarrow> range_end rng | Some e \<Rightarrow> e) =
                    Some (Date e) \<and>
                  s \<le> re \<and> rs \<le> e)"
    using assms
    by (auto simp: addressOverlapsRange_def date_le_Date date_ge_def split: option.splits)
next
  fix s e
  assume h: "parseDate num (startDate a) = Some (Date s) \<and>
                parseDate num (case endDate a of None \<Rightarrow> range_end rng | Some e \<Rightarrow> e) =
                  Some (Date e) \<and>
                s \<le> e \<and> s \<le> re \<and> rs \<le> e"
  then have r: "addressRange num rng (Date rs) (Date re) a =
      Some \<lparr>iv_start = Date (clampT rs re s), iv_end = Date (clampT rs re e)\<rparr>"
    by (intro addressRange_Some) simp_all
  moreover have "clampT rs re s = max s rs" "clampT rs re e = min e re"
    using h assms(3) by (auto simp: clampT_def)
  ultimately show "addressRange num rng (Date rs) (Date re) a =
      Some \<lparr>iv_start = Date (max s rs), iv_end = Date (min e re)\<rparr>"
    by simp
  show "gapEngineKeeps num a rng"
    using assms r by (simp add: gapEngineKeeps_def date_lt_def)
next
  assume "parseDate num (startDate a) = None \<or>
     parseDate num (case endDate a of None \<Rightarrow> range_end rng | Some e \<Rightarrow> e) = None"
  then show "\<not> addressOverlapsRange num (startDate a) (endDate a) (range_start rng) (range_end rng)"
    by (auto simp: addressOverlapsRange_def split: option.splits)
next
  assume "parseDate num (startDate a) = None \<or>
     parseDate num (case endDate a of None \<Rightarrow> range_end rng | Some e \<Rightarrow> e) = None"
  then show "\<not> gapEngineKeeps num a rng"
    by (auto simp: gapEngineKeeps_def addressRange_def split: option.splits)
qed

section \<open>The claims\<close>



text \<open>
  C2. The claim: for a query range with parseable bounds and start not after end, if no
  address interval survives parsing, discarding and clamping, the result is exactly one
  gap, the whole range, with both flags true. For the empty address list, and for a list
  whose addresses are all dropped by the callback, \<^verbatim>\<open>getCoverageGaps\<close> returns that gap
  (\<open>null_for_every_address_full_range_gap\<close>). An address that lies wholly outside the range
  leaves nothing inside it, but the callback clamps its two bounds one by one and has no
  test that the interval meets the range, the test that \<^verbatim>\<open>addressOverlapsRange\<close> makes. An
  address that ended before the range is counted as coverage of the first day of the
  range, and an address that starts after the range as coverage of its last day: the
  result is not the whole range, and one of the flags is false.
\<close>

theorem outside_address_counted_as_coverage:
  "\<not> addressOverlapsRange decimalNumber ''2010-01-01'' (Some ''2011-01-01'')
       ''2021-01-01'' ''2022-01-01'' \<and>
   addressRange decimalNumber \<lparr>range_start = ''2021-01-01'', range_end = ''2022-01-01''\<rparr>
     (Date 1609459200000) (Date 1640995200000)
     (address_with_dates ''2010-01-01'' (Some ''2011-01-01'')) =
     Some \<lparr>iv_start = Date 1609459200000, iv_end = Date 1609459200000\<rparr> \<and>
   getCoverageGaps decimalNumber [address_with_dates ''2010-01-01'' (Some ''2011-01-01'')]
     \<lparr>range_start = ''2021-01-01'', range_end = ''2022-01-01''\<rparr> =
     Inr [\<lparr>gap_start = ''2021-01-02'', gap_end = ''2022-01-01'',
           isLeading = False, isTrailing = True\<rparr>] \<and>
   getCoverageGaps decimalNumber [address_with_dates ''2023-01-01'' (Some ''2024-01-01'')]
     \<lparr>range_start = ''2021-01-01'', range_end = ''2022-01-01''\<rparr> =
     Inr [\<lparr>gap_start = ''2021-01-01'', gap_end = ''2021-12-31'',
           isLeading = True, isTrailing = False\<rparr>]"
proof -
  have f: "\<not> addressOverlapsRange decimalNumber ''2010-01-01'' (Some ''2011-01-01'')
       ''2021-01-01'' ''2022-01-01''"
    by (simp add: addressOverlapsRange_def parse_2010_01_01 parse_2011_01_01
        parse_2021_01_01 parse_2022_01_01 date_le_def date_ge_def)
  have r: "addressRange decimalNumber \<lparr>range_start = ''2021-01-01'', range_end = ''2022-01-01''\<rparr>
     (Date 1609459200000) (Date 1640995200000)
     (address_with_dates ''2010-01-01'' (Some ''2011-01-01'')) =
     Some \<lparr>iv_start = Date 1609459200000, iv_end = Date 1609459200000\<rparr>"
    by (simp add: addressRange_def address_with_dates_def parse_2010_01_01 parse_2011_01_01
        clampDate_def date_lt_def date_gt_def)
  have b: "getCoverageGaps decimalNumber [address_with_dates ''2010-01-01'' (Some ''2011-01-01'')]
     \<lparr>range_start = ''2021-01-01'', range_end = ''2022-01-01''\<rparr> =
     Inr [\<lparr>gap_start = ''2021-01-02'', gap_end = ''2022-01-01'',
           isLeading = False, isTrailing = True\<rparr>]"
    by (simp add: gaps_eval parse_eval format_eval)
  have a: "getCoverageGaps decimalNumber [address_with_dates ''2023-01-01'' (Some ''2024-01-01'')]
     \<lparr>range_start = ''2021-01-01'', range_end = ''2022-01-01''\<rparr> =
     Inr [\<lparr>gap_start = ''2021-01-01'', gap_end = ''2021-12-31'',
           isLeading = True, isTrailing = False\<rparr>]"
    by (simp add: gaps_eval parse_eval format_eval)
  from f r b a show ?thesis by blast
qed

text \<open>
  C3. Let the query range parse to valid dates with start not after end, and let an
  address have a valid start and a valid effective end. For every date D with
  start <= D < end, replacing the address by the two addresses [start, D] and
  [D plus one day, end] leaves the result of \<^verbatim>\<open>getCoverageGaps\<close> unchanged: when the address
  is the only one, and also among other addresses, none of which holds an Invalid Date,
  when the range ends before the last day a \<^verbatim>\<open>Date\<close> can represent.
\<close>

theorem split_interval_same_gaps:
  assumes "parseDate num (range_start rng) = Some (Date rs)"
    and "parseDate num (range_end rng) = Some (Date re)"
    and "rs \<le> re"
    and "parseDate num (startDate a) = Some (Date s)"
    and "parseDate num (case endDate a of None \<Rightarrow> range_end rng | Some e \<Rightarrow> e) = Some (Date e)"
    and "parseDate num dS = Some (Date D)"
    and "parseDate num d1S = Some (Date (D + msPerDay))"
    and "s \<le> D" and "D < e"
    and "(xs = [] \<and> ys = []) \<or>
         (re < 8640000000000000 \<and>
          (\<forall>b \<in> set (xs @ ys).
             parseDate num (startDate b) \<noteq> Some InvalidDate \<and>
             parseDate num (case endDate b of None \<Rightarrow> range_end rng | Some e \<Rightarrow> e)
               \<noteq> Some InvalidDate))"
  shows "getCoverageGaps num (xs @ [a\<lparr>endDate := Some dS\<rparr>, a\<lparr>startDate := d1S\<rparr>] @ ys) rng =
         getCoverageGaps num (xs @ [a] @ ys) rng"
  using assms(10)
proof
  assume "xs = [] \<and> ys = []"
  then show ?thesis
    using split_single_same_runs [OF assms(1-9)] by simp
next
  assume "re < 8640000000000000 \<and>
          (\<forall>b \<in> set (xs @ ys).
             parseDate num (startDate b) \<noteq> Some InvalidDate \<and>
             parseDate num (case endDate b of None \<Rightarrow> range_end rng | Some e \<Rightarrow> e)
               \<noteq> Some InvalidDate)"
  then have r: "re < 8640000000000000"
    and o: "\<forall>b \<in> set (xs @ ys).
             parseDate num (startDate b) \<noteq> Some InvalidDate \<and>
             parseDate num (case endDate b of None \<Rightarrow> range_end rng | Some e \<Rightarrow> e)
               \<noteq> Some InvalidDate"
    by blast+
  show ?thesis
    by (rule split_interval_same_runs [OF assms(1-3) r assms(4-9) o])
qed

theorem split_interval_same_gaps_witness:
  "parseDate decimalNumber ''2021-03-01'' = Some (Date 1614556800000) \<and>
   parseDate decimalNumber ''2021-03-02'' = Some (Date (1614556800000 + msPerDay)) \<and>
   getCoverageGaps decimalNumber
     [address_with_dates ''2021-01-01'' (Some ''2021-03-01''),
      address_with_dates ''2021-03-02'' (Some ''2021-05-01''),
      address_with_dates ''2021-09-01'' None]
     \<lparr>range_start = ''2021-01-01'', range_end = ''2022-01-01''\<rparr> =
   Inr [\<lparr>gap_start = ''2021-05-02'', gap_end = ''2021-08-31'',
         isLeading = False, isTrailing = False\<rparr>]"
proof -
  let ?rng = "\<lparr>range_start = ''2021-01-01'', range_end = ''2022-01-01''\<rparr>"
  let ?a = "address_with_dates ''2021-01-01'' (Some ''2021-05-01'')"
  let ?b = "address_with_dates ''2021-09-01'' None"
  have d1: "parseDate decimalNumber ''2021-03-02'' = Some (Date (1614556800000 + msPerDay))"
    by (simp add: parse_2021_03_02 msPerDay_def)
  have r1: "parseDate decimalNumber (range_start ?rng) = Some (Date 1609459200000)"
    by (simp add: parse_2021_01_01)
  have r2: "parseDate decimalNumber (range_end ?rng) = Some (Date 1640995200000)"
    by (simp add: parse_2022_01_01)
  have le: "(1609459200000::int) \<le> 1640995200000" by simp
  have a1: "parseDate decimalNumber (startDate ?a) = Some (Date 1609459200000)"
    by (simp add: address_with_dates_def parse_2021_01_01)
  have a2: "parseDate decimalNumber (case endDate ?a of None \<Rightarrow> range_end ?rng | Some e \<Rightarrow> e) =
      Some (Date 1619827200000)"
    by (simp add: address_with_dates_def parse_2021_05_01)
  have o: "(1609459200000::int) \<le> 1614556800000" "(1614556800000::int) < 1619827200000"
    by simp_all
  have ctx: "([] = [] \<and> [?b] = []) \<or>
      ((1640995200000::int) < 8640000000000000 \<and>
       (\<forall>b \<in> set ([] @ [?b]).
          parseDate decimalNumber (startDate b) \<noteq> Some InvalidDate \<and>
          parseDate decimalNumber (case endDate b of None \<Rightarrow> range_end ?rng | Some e \<Rightarrow> e)
            \<noteq> Some InvalidDate))"
    by (simp add: address_with_dates_def parse_2021_09_01 parse_2022_01_01)
  have "getCoverageGaps decimalNumber
      ([] @ [?a\<lparr>endDate := Some ''2021-03-01''\<rparr>, ?a\<lparr>startDate := ''2021-03-02''\<rparr>] @ [?b]) ?rng =
      getCoverageGaps decimalNumber ([] @ [?a] @ [?b]) ?rng"
    by (rule split_interval_same_gaps [OF r1 r2 le a1 a2 parse_2021_03_01 d1 o ctx])
  then show ?thesis
    using gaps_two_addresses d1 by (simp add: address_with_dates_def parse_2021_03_01)
qed

text \<open>
  C4. The claim: an address whose \<^verbatim>\<open>startDate\<close> or \<^verbatim>\<open>endDate\<close> fails to parse, or whose
  effective end precedes its start, is silently discarded; it contributes no coverage and
  the computation returns normally. The computation does return normally on every input
  (\<open>getCoverageGaps_returns\<close>), and an address for which \<^verbatim>\<open>parseDate\<close> returns \<^verbatim>\<open>null\<close>, or
  whose end is before its start, is discarded (\<open>null_or_inverted_address_discarded\<close>). A
  date string whose fields are numbers beyond the range of time values fails to parse
  into an Invalid Date, and the test of the callback misses it. The address that starts
  on \<^verbatim>\<open>300000-01-01\<close> is kept as an interval with an invalid start. Alone it leaves no gap,
  where the empty list leaves the whole range; beside an address that covers January and
  February 2021 it takes away the trailing gap, in either order of the two addresses and,
  as the last two lines say, in either order in which the sort may leave the two
  intervals.
\<close>

theorem invalid_date_address_kept:
  "parseDate decimalNumber ''300000-01-01'' = Some InvalidDate \<and>
   addressRange decimalNumber \<lparr>range_start = ''2021-01-01'', range_end = ''2022-01-01''\<rparr>
     (Date 1609459200000) (Date 1640995200000)
     (address_with_dates ''300000-01-01'' None) =
     Some \<lparr>iv_start = InvalidDate, iv_end = Date 1640995200000\<rparr> \<and>
   getCoverageGaps decimalNumber [address_with_dates ''300000-01-01'' None]
     \<lparr>range_start = ''2021-01-01'', range_end = ''2022-01-01''\<rparr> = Inr [] \<and>
   getCoverageGaps decimalNumber []
     \<lparr>range_start = ''2021-01-01'', range_end = ''2022-01-01''\<rparr> =
     Inr [\<lparr>gap_start = ''2021-01-01'', gap_end = ''2022-01-01'',
           isLeading = True, isTrailing = True\<rparr>] \<and>
   getCoverageGaps decimalNumber
     [address_with_dates ''2021-01-01'' (Some ''2021-03-01''),
      address_with_dates ''300000-01-01'' None]
     \<lparr>range_start = ''2021-01-01'', range_end = ''2022-01-01''\<rparr> = Inr [] \<and>
   getCoverageGaps decimalNumber
     [address_with_dates ''300000-01-01'' None,
      address_with_dates ''2021-01-01'' (Some ''2021-03-01'')]
     \<lparr>range_start = ''2021-01-01'', range_end = ''2022-01-01''\<rparr> = Inr [] \<and>
   getCoverageGaps decimalNumber [address_with_dates ''2021-01-01'' (Some ''2021-03-01'')]
     \<lparr>range_start = ''2021-01-01'', range_end = ''2022-01-01''\<rparr> =
     Inr [\<lparr>gap_start = ''2021-03-02'', gap_end = ''2022-01-01'',
           isLeading = False, isTrailing = True\<rparr>] \<and>
   emitGaps (foldl mergeStep []
      [\<lparr>iv_start = Date 1609459200000, iv_end = Date 1614556800000\<rparr>,
       \<lparr>iv_start = InvalidDate, iv_end = Date 1640995200000\<rparr>])
     (Date 1609459200000) (Date 1640995200000) = Inr [] \<and>
   emitGaps (foldl mergeStep []
      [\<lparr>iv_start = InvalidDate, iv_end = Date 1640995200000\<rparr>,
       \<lparr>iv_start = Date 1609459200000, iv_end = Date 1614556800000\<rparr>])
     (Date 1609459200000) (Date 1640995200000) = Inr []"
proof -
  have p: "parseDate decimalNumber ''300000-01-01'' = Some InvalidDate"
    by (rule parse_300000_01_01)
  have r: "addressRange decimalNumber \<lparr>range_start = ''2021-01-01'', range_end = ''2022-01-01''\<rparr>
     (Date 1609459200000) (Date 1640995200000)
     (address_with_dates ''300000-01-01'' None) =
     Some \<lparr>iv_start = InvalidDate, iv_end = Date 1640995200000\<rparr>"
    by (simp add: addressRange_def address_with_dates_def parse_300000_01_01 parse_2022_01_01
        clampDate_def date_lt_def date_gt_def)
  have g1: "getCoverageGaps decimalNumber [address_with_dates ''300000-01-01'' None]
     \<lparr>range_start = ''2021-01-01'', range_end = ''2022-01-01''\<rparr> = Inr []"
    by (simp add: gaps_eval parse_eval)
  have g0: "getCoverageGaps decimalNumber []
     \<lparr>range_start = ''2021-01-01'', range_end = ''2022-01-01''\<rparr> =
     Inr [\<lparr>gap_start = ''2021-01-01'', gap_end = ''2022-01-01'',
           isLeading = True, isTrailing = True\<rparr>]"
    by (simp add: gaps_eval parse_eval)
  have g2: "getCoverageGaps decimalNumber
     [address_with_dates ''2021-01-01'' (Some ''2021-03-01''),
      address_with_dates ''300000-01-01'' None]
     \<lparr>range_start = ''2021-01-01'', range_end = ''2022-01-01''\<rparr> = Inr []"
    by (simp add: gaps_eval parse_eval format_eval)
  have g3: "getCoverageGaps decimalNumber
     [address_with_dates ''300000-01-01'' None,
      address_with_dates ''2021-01-01'' (Some ''2021-03-01'')]
     \<lparr>range_start = ''2021-01-01'', range_end = ''2022-01-01''\<rparr> = Inr []"
    by (simp add: gaps_eval parse_eval format_eval)
  have g4: "getCoverageGaps decimalNumber [address_with_dates ''2021-01-01'' (Some ''2021-03-01'')]
     \<lparr>range_start = ''2021-01-01'', range_end = ''2022-01-01''\<rparr> =
     Inr [\<lparr>gap_start = ''2021-03-02'', gap_end = ''2022-01-01'',
           isLeading = False, isTrailing = True\<rparr>]"
    by (simp add: gaps_eval parse_eval format_eval)
  have e1: "emitGaps (foldl mergeStep []
      [\<lparr>iv_start = Date 1609459200000, iv_end = Date 1614556800000\<rparr>,
       \<lparr>iv_start = InvalidDate, iv_end = Date 1640995200000\<rparr>])
     (Date 1609459200000) (Date 1640995200000) = Inr []"
    by (simp add: gaps_eval parse_eval format_eval)
  have e2: "emitGaps (foldl mergeStep []
      [\<lparr>iv_start = InvalidDate, iv_end = Date 1640995200000\<rparr>,
       \<lparr>iv_start = Date 1609459200000, iv_end = Date 1614556800000\<rparr>])
     (Date 1609459200000) (Date 1640995200000) = Inr []"
    by (simp add: gaps_eval parse_eval format_eval)
  from p r g1 g0 g2 g3 g4 e1 e2 show ?thesis by blast
qed

text \<open>
  C5 as stated fails: when the file of one document cannot be deleted, \<^verbatim>\<open>deleteAddress\<close>
  throws at that document. Here the file of the second document is still there and the
  snapshot still lists the address and both documents.
\<close>

theorem deleteAddress_stops_at_failure:
  "deleteAddress ''a1'' example_world = (Inl OtherError, example_world) \<and>
   uploads example_world ''data/uploads/d2.pdf'' = Some Removable \<and>
   readStore example_world = (Inr (example_store, False), example_world)"
proof -
  have "deleteAddress ''a1'' example_world = (Inl OtherError, example_world)"
    by (simp add: deleteAddress_def readStore_example Let_def example_store_def
        doc_of_address_def deleteUploadFile_def unlink_def getUploadPath_def)
      (simp add: example_world_def)
  moreover have "uploads example_world ''data/uploads/d2.pdf'' = Some Removable"
    by (simp add: example_world_def)
  ultimately show ?thesis by (simp add: readStore_example)
qed

text \<open>
  C5, amended. Let the snapshot be readable and writable. (1) If no file of a document of
  the address is undeletable (absent files are tolerated), \<^verbatim>\<open>deleteAddress(id)\<close> succeeds:
  the snapshot then holds exactly the addresses whose id differs and the documents whose
  \<^verbatim>\<open>addressId\<close> differs, the files of the removed documents are gone, every other file is
  as before, and a second \<^verbatim>\<open>deleteAddress(id)\<close> succeeds and changes nothing. (2) If no
  address has the id and no document refers to it, the call succeeds and the snapshot and
  the files are unchanged. (3) If the file of one document of the address is undeletable
  and the files of the documents before it are not, the call fails with that error: the
  files of the documents before it are gone, all other files are as before, and the
  snapshot is not rewritten.
\<close>

theorem deleteAddress_cascade:
  assumes "readStore w = (Inr (store, shared), w1)" and "store_writable w"
  shows "((\<forall>doc \<in> set (documents store).
             addressId doc = ident \<longrightarrow> uploads w (getUploadPath doc) \<noteq> Some Undeletable) \<longrightarrow>
          (\<exists>w'. deleteAddress ident w = (Inr (), w') \<and>
             readStore w' =
               (Inr (\<lparr>addresses = filter (\<lambda>address. id_address address \<noteq> ident) (addresses store),
                      documents = filter (\<lambda>doc. addressId doc \<noteq> ident) (documents store)\<rparr>,
                     False), w') \<and>
             uploads w' =
               (\<lambda>p. if p \<in> getUploadPath ` {doc \<in> set (documents store). addressId doc = ident}
                    then None else uploads w p) \<and>
             deleteAddress ident w' = (Inr (), w'))) \<and>
         (ident \<notin> id_address ` set (addresses store) \<and>
          ident \<notin> addressId ` set (documents store) \<longrightarrow>
          (\<exists>w'. deleteAddress ident w = (Inr (), w') \<and>
             readStore w' = (Inr (store, False), w') \<and> uploads w' = uploads w)) \<and>
         (\<forall>pre bad post.
            filter (\<lambda>doc. addressId doc = ident) (documents store) = pre @ bad # post \<and>
            (\<forall>doc \<in> set pre. uploads w (getUploadPath doc) \<noteq> Some Undeletable) \<and>
            uploads w (getUploadPath bad) = Some Undeletable \<longrightarrow>
            (\<exists>w'. deleteAddress ident w = (Inl OtherError, w') \<and>
               store_file w' = store_file w1 \<and>
               uploads w' = (\<lambda>p. if p \<in> getUploadPath ` set pre then None else uploads w p)))"
proof (intro conjI impI allI)
  let ?as = "filter (\<lambda>address. id_address address \<noteq> ident) (addresses store)"
  let ?ds = "filter (\<lambda>doc. addressId doc \<noteq> ident) (documents store)"
  let ?ps = "getUploadPath ` {doc \<in> set (documents store). addressId doc = ident}"
  let ?w' = "(removeFiles ?ps w1)\<lparr>store_file := Content (Some ?as) (Some ?ds)\<rparr>"
  assume ok: "\<forall>doc \<in> set (documents store).
             addressId doc = ident \<longrightarrow> uploads w (getUploadPath doc) \<noteq> Some Undeletable"
  have d: "deleteAddress ident w = (Inr (), ?w')"
    using assms ok by (rule deleteAddress_ok)
  have rd: "readStore ?w' = (Inr (\<lparr>addresses = ?as, documents = ?ds\<rparr>, False), ?w')"
    by (rule readStore_written)
  have up: "uploads ?w' = (\<lambda>p. if p \<in> ?ps then None else uploads w p)"
    by (simp add: fun_eq_iff readStore_frame(1) [OF assms(1)])
  have wr: "store_writable ?w'"
    using assms(2) readStore_frame(3) [OF assms(1)] by simp
  have no: "\<forall>doc \<in> set (documents \<lparr>addresses = ?as, documents = ?ds\<rparr>).
      addressId doc = ident \<longrightarrow> uploads ?w' (getUploadPath doc) \<noteq> Some Undeletable"
    by simp
  have "deleteAddress ident ?w' = (Inr (), ?w')"
    using deleteAddress_ok [OF rd wr no] by (simp add: removeFiles_def)
  with d rd up
  show "\<exists>w'. deleteAddress ident w = (Inr (), w') \<and>
             readStore w' = (Inr (\<lparr>addresses = ?as, documents = ?ds\<rparr>, False), w') \<and>
             uploads w' = (\<lambda>p. if p \<in> ?ps then None else uploads w p) \<and>
             deleteAddress ident w' = (Inr (), w')"
    by blast
next
  assume none: "ident \<notin> id_address ` set (addresses store) \<and>
          ident \<notin> addressId ` set (documents store)"
  then have f: "filter (\<lambda>address. id_address address \<noteq> ident) (addresses store) = addresses store"
      "filter (\<lambda>doc. addressId doc \<noteq> ident) (documents store) = documents store"
      "{doc \<in> set (documents store). addressId doc = ident} = {}"
    by (auto simp: filter_id_conv)
  have ok: "\<forall>doc \<in> set (documents store).
             addressId doc = ident \<longrightarrow> uploads w (getUploadPath doc) \<noteq> Some Undeletable"
    using none by auto
  let ?w' = "w1\<lparr>store_file := Content (Some (addresses store)) (Some (documents store))\<rparr>"
  have d: "deleteAddress ident w = (Inr (), ?w')"
    using deleteAddress_ok [OF assms ok] by (simp add: f)
  have "readStore ?w' = (Inr (store, False), ?w')"
    using readStore_written [where w = w1 and as = "addresses store" and ds = "documents store"]
    by simp
  moreover have "uploads ?w' = uploads w"
    using readStore_frame(1) [OF assms(1)] by simp
  ultimately show "\<exists>w'. deleteAddress ident w = (Inr (), w') \<and>
             readStore w' = (Inr (store, False), w') \<and> uploads w' = uploads w"
    using d by blast
next
  fix pre bad post
  assume h: "filter (\<lambda>doc. addressId doc = ident) (documents store) = pre @ bad # post \<and>
            (\<forall>doc \<in> set pre. uploads w (getUploadPath doc) \<noteq> Some Undeletable) \<and>
            uploads w (getUploadPath bad) = Some Undeletable"
  then have h1: "filter (\<lambda>doc. addressId doc = ident) (documents store) = pre @ bad # post"
    and h2: "\<forall>doc \<in> set pre. uploads w (getUploadPath doc) \<noteq> Some Undeletable"
    and h3: "uploads w (getUploadPath bad) = Some Undeletable"
    by blast+
  have "deleteAddress ident w = (Inl OtherError, removeFiles (getUploadPath ` set pre) w1)"
    by (rule deleteAddress_fail [OF assms(1) h1 h2 h3])
  moreover have "uploads (removeFiles (getUploadPath ` set pre) w1) =
      (\<lambda>p. if p \<in> getUploadPath ` set pre then None else uploads w p)"
    by (simp add: fun_eq_iff readStore_frame(1) [OF assms(1)])
  ultimately show "\<exists>w'. deleteAddress ident w = (Inl OtherError, w') \<and>
               store_file w' = store_file w1 \<and>
               uploads w' = (\<lambda>p. if p \<in> getUploadPath ` set pre then None else uploads w p)"
    by simp
qed

theorem deleteAddress_cascade_witness:
  "readStore removable_world = (Inr (example_store, False), removable_world) \<and>
   store_writable removable_world \<and>
   fst (deleteAddress ''a1'' removable_world) = Inr () \<and>
   fst (readStore (snd (deleteAddress ''a1'' removable_world))) =
     Inr (\<lparr>addresses = [], documents = []\<rparr>, False) \<and>
   uploads (snd (deleteAddress ''a1'' removable_world)) ''data/uploads/d1.pdf'' = None \<and>
   uploads (snd (deleteAddress ''a1'' removable_world)) ''data/uploads/d2.pdf'' = None"
proof -
  have wr: "store_writable removable_world"
    by (simp add: removable_world_def example_world_def)
  have ok: "\<forall>doc \<in> set (documents example_store).
      addressId doc = ''a1'' \<longrightarrow> uploads removable_world (getUploadPath doc) \<noteq> Some Undeletable"
    by (simp add: example_store_def doc_of_address_def getUploadPath_def removable_world_def)
  from deleteAddress_cascade [OF readStore_removable wr, of "''a1''"] ok
  obtain w' where w': "deleteAddress ''a1'' removable_world = (Inr (), w')"
    "readStore w' =
       (Inr (\<lparr>addresses = filter (\<lambda>address. id_address address \<noteq> ''a1'') (addresses example_store),
              documents = filter (\<lambda>doc. addressId doc \<noteq> ''a1'') (documents example_store)\<rparr>,
             False), w')"
    "uploads w' =
       (\<lambda>p. if p \<in> getUploadPath ` {doc \<in> set (documents example_store). addressId doc = ''a1''}
            then None else uploads removable_world p)"
    by blast
  have "fst (readStore w') = Inr (\<lparr>addresses = [], documents = []\<rparr>, False)"
    unfolding w'(2)
    by (simp add: example_store_def address_with_dates_def doc_of_address_def)
  moreover have "uploads w' ''data/uploads/d1.pdf'' = None" "uploads w' ''data/uploads/d2.pdf'' = None"
    unfolding w'(3)
    by (force simp: example_store_def doc_of_address_def getUploadPath_def)+
  ultimately show ?thesis
    using w'(1) wr readStore_removable by simp
qed

text \<open>
  C6. Let the snapshot be readable. For an id that no address of the store has,
  \<^verbatim>\<open>updateAddress\<close> returns \<^verbatim>\<open>null\<close> (NotFound), and reading the snapshot again yields the same
  store. For an id that some address has, with the snapshot writable, it replaces the
  first address with that id by the spread of the supplied fields over it and leaves every
  other address, the documents and the upload files as they were. In the spread, the id
  and \<^verbatim>\<open>createdAt\<close> are those of the existing address, \<^verbatim>\<open>updatedAt\<close> is the current time, and each
  other field is the supplied value when the key is supplied and the existing value
  otherwise.
\<close>

theorem updateAddress_frame:
  assumes "readStore w = (Inr (store, shared), w1)"
  shows "(ident \<notin> id_address ` set (addresses store) \<longrightarrow>
            updateAddress ident updates now w = (Inr None, w1) \<and>
            readStore w1 = (Inr (store, False), w1) \<and> uploads w1 = uploads w) \<and>
         (ident \<in> id_address ` set (addresses store) \<and> store_writable w \<longrightarrow>
            (\<exists>index w'.
               index < length (addresses store) \<and>
               id_address (addresses store ! index) = ident \<and>
               (\<forall>j < index. id_address (addresses store ! j) \<noteq> ident) \<and>
               updateAddress ident updates now w =
                 (Inr (Some (spreadUpdates (addresses store ! index) updates now)), w') \<and>
               readStore w' =
                 (Inr (\<lparr>addresses = (addresses store)
                           [index := spreadUpdates (addresses store ! index) updates now],
                        documents = documents store\<rparr>, False), w') \<and>
               uploads w' = uploads w)) \<and>
         (\<forall>a. id_address (spreadUpdates a updates now) = id_address a \<and>
              createdAt (spreadUpdates a updates now) = createdAt a \<and>
              updatedAt (spreadUpdates a updates now) = now \<and>
              line1 (spreadUpdates a updates now) =
                (case u_line1 updates of None \<Rightarrow> line1 a | Some v \<Rightarrow> v) \<and>
              line2 (spreadUpdates a updates now) =
                (case u_line2 updates of None \<Rightarrow> line2 a | Some v \<Rightarrow> v) \<and>
              town (spreadUpdates a updates now) =
                (case u_town updates of None \<Rightarrow> town a | Some v \<Rightarrow> v) \<and>
              county (spreadUpdates a updates now) =
                (case u_county updates of None \<Rightarrow> county a | Some v \<Rightarrow> v) \<and>
              postcode (spreadUpdates a updates now) =
                (case u_postcode updates of None \<Rightarrow> postcode a | Some v \<Rightarrow> v) \<and>
              country (spreadUpdates a updates now) =
                (case u_country updates of None \<Rightarrow> country a | Some v \<Rightarrow> v) \<and>
              startDate (spreadUpdates a updates now) =
                (case u_startDate updates of None \<Rightarrow> startDate a | Some v \<Rightarrow> v) \<and>
              endDate (spreadUpdates a updates now) =
                (case u_endDate updates of None \<Rightarrow> endDate a | Some v \<Rightarrow> v))"
proof (intro conjI impI allI)
  assume n: "ident \<notin> id_address ` set (addresses store)"
  show "updateAddress ident updates now w = (Inr None, w1)"
    using assms n by (rule updateAddress_not_found)
  show "readStore w1 = (Inr (store, False), w1)"
    using assms by (rule readStore_again)
  show "uploads w1 = uploads w"
    using assms by (rule readStore_frame(1))
next
  assume h: "ident \<in> id_address ` set (addresses store) \<and> store_writable w"
  then have "findIndex (\<lambda>address. id_address address = ident) (addresses store) \<noteq> None"
    by (auto simp: findIndex_None)
  then obtain index where
    i: "findIndex (\<lambda>address. id_address address = ident) (addresses store) = Some index"
    by auto
  from findIndex_Some [OF i] updateAddress_found [OF assms _ i, of updates now] h
  show "\<exists>index w'.
               index < length (addresses store) \<and>
               id_address (addresses store ! index) = ident \<and>
               (\<forall>j < index. id_address (addresses store ! j) \<noteq> ident) \<and>
               updateAddress ident updates now w =
                 (Inr (Some (spreadUpdates (addresses store ! index) updates now)), w') \<and>
               readStore w' =
                 (Inr (\<lparr>addresses = (addresses store)
                           [index := spreadUpdates (addresses store ! index) updates now],
                        documents = documents store\<rparr>, False), w') \<and>
               uploads w' = uploads w"
    by blast
qed (simp_all add: spreadUpdates_frame)

theorem updateAddress_frame_witness:
  "readStore example_world = (Inr (example_store, False), example_world) \<and>
   store_writable example_world \<and>
   updateAddress ''zz'' (only_town ''York'') ''2024-03-01T00:00:00.000Z'' example_world =
     (Inr None, example_world) \<and>
   fst (updateAddress ''a1'' (only_town ''York'') ''2024-03-01T00:00:00.000Z'' example_world) =
     Inr (Some ((address_with_dates ''2021-01-01'' None)
                 \<lparr>town := ''York'', updatedAt := ''2024-03-01T00:00:00.000Z''\<rparr>))"
proof -
  let ?now = "''2024-03-01T00:00:00.000Z''"
  have wr: "store_writable example_world"
    by (simp add: example_world_def)
  note t = updateAddress_frame [OF readStore_example]
  have "''zz'' \<notin> id_address ` set (addresses example_store)"
    by (simp add: example_store_def address_with_dates_def)
  with t [of "''zz''" "only_town ''York''" ?now]
  have nf: "updateAddress ''zz'' (only_town ''York'') ?now example_world = (Inr None, example_world)"
    by blast
  have "''a1'' \<in> id_address ` set (addresses example_store) \<and> store_writable example_world"
    using wr by (simp add: example_store_def address_with_dates_def)
  with t [of "''a1''" "only_town ''York''" ?now]
  obtain index w' where i: "index < length (addresses example_store)"
    and u: "updateAddress ''a1'' (only_town ''York'') ?now example_world =
       (Inr (Some (spreadUpdates (addresses example_store ! index) (only_town ''York'') ?now)), w')"
    by blast
  from i have "index = 0" by (simp add: example_store_def)
  then have "fst (updateAddress ''a1'' (only_town ''York'') ?now example_world) =
     Inr (Some ((address_with_dates ''2021-01-01'' None)\<lparr>town := ''York'', updatedAt := ?now\<rparr>))"
    using u by (simp add: example_store_def spreadUpdates_def only_town_def address_with_dates_def)
  with nf wr readStore_example show ?thesis by simp
qed

text \<open>
  C8 as stated fails for the years in which \<^verbatim>\<open>Date.UTC\<close> reads a year from 0 to 99 as 1900
  plus that year. For a day in the year 100 the start of the range is in 1997, not in the
  year 97.
\<close>

theorem last_three_years_range_year_100:
  "YearFromTime (- 59000000000000) = 100 \<and>
   MonthFromTime (- 59000000000000) = 4 \<and>
   DateFromTime (- 59000000000000) = 13 \<and>
   isoDate (100 - 3) (4 + 1) 13 = ''0097-05-13'' \<and>
   getLastThreeYearsRange (Date (- 59000000000000)) =
     Inr \<lparr>range_start = ''1997-05-13'', range_end = ''0100-05-13''\<rparr>"
proof -
  have y: "YearFromTime (- 59000000000000) = 100"
    by (simp add: format_eval)
  have m: "MonthFromTime (- 59000000000000) = 4"
    by (simp add: format_eval)
  have d: "DateFromTime (- 59000000000000) = 13"
    by (simp add: format_eval)
  have e: "Date_UTC (Fin 100) (Fin 4) (Fin 13) = Date (- 59000054400000)"
    by (simp add: parse_eval)
  have c: "Date_UTC (Fin 97) (Fin 4) (Fin 13) = Date 863481600000"
    by (simp add: parse_eval)
  have ey: "YearFromTime (- 59000054400000) = 100" "MonthFromTime (- 59000054400000) = 4"
      "DateFromTime (- 59000054400000) = 13"
    by (simp_all add: format_eval)
  have cm: "MonthFromTime 863481600000 = 4"
    by (simp add: format_eval)
  have s: "subtractYears (Date (- 59000054400000)) 3 = Date 863481600000"
    by (simp add: subtractYears_def getUTCFullYear_def getUTCMonth_def getUTCDate_def
        jsnum_add_def strict_neq_def ey c cm)
  have f1: "formatDate (Date 863481600000) = Inr ''1997-05-13''"
    by (simp add: format_eval)
  have f2: "formatDate (Date (- 59000054400000)) = Inr ''0100-05-13''"
    by (simp add: format_eval)
  have "getLastThreeYearsRange (Date (- 59000000000000)) =
     Inr \<lparr>range_start = ''1997-05-13'', range_end = ''0100-05-13''\<rparr>"
    by (simp add: getLastThreeYearsRange_def getUTCFullYear_def getUTCMonth_def getUTCDate_def
        y m d e s f1 f2)
  then show ?thesis
    by (simp add: y m d isoDate_def pad4_def pad2_def digitChar_def)
qed

text \<open>
  C8, amended. For every valid date \<open>today\<close> whose UTC year is from 103 to 9999,
  \<^verbatim>\<open>getLastThreeYearsRange\<close> returns the range whose end is today's UTC calendar date and
  whose start has the year of today minus 3, the same month, and the same day of the
  month, or the last day of that month when the month is shorter there (29 February
  becomes 28 February), both written \<^verbatim>\<open>YYYY-MM-DD\<close>.
\<close>

theorem last_three_years_range:
  assumes "103 \<le> YearFromTime t" and "YearFromTime t \<le> 9999"
  shows "getLastThreeYearsRange (Date t) =
           Inr \<lparr>range_start =
                  isoDate (YearFromTime t - 3) (MonthFromTime t + 1)
                    (min (DateFromTime t) (DaysInMonth (YearFromTime t - 3) (MonthFromTime t))),
                range_end = isoDate (YearFromTime t) (MonthFromTime t + 1) (DateFromTime t)\<rparr>"
proof -
  define y m d where "y = YearFromTime t" and "m = MonthFromTime t" and "d = DateFromTime t"
  have m: "0 \<le> m" "m \<le> 11" using MonthFromTime_range [of t] by (simp_all add: m_def)
  have d: "1 \<le> d" "d \<le> DaysInMonth y m"
    using DateFromTime_range [of t] by (simp_all add: d_def y_def m_def)
  have y: "103 \<le> y" "y \<le> 9999" using assms by (simp_all add: y_def)
  then have y100: "100 \<le> y" by simp
  have "Date_UTC (getUTCFullYear (Date t)) (getUTCMonth (Date t)) (getUTCDate (Date t)) =
      TimeClip (MakeDay y m d * msPerDay)"
    using Date_UTC_of_int [OF y100, of m d]
    by (simp add: getUTCFullYear_def getUTCMonth_def getUTCDate_def y_def m_def d_def)
  also have "\<dots> = Date (MakeDay y m d * msPerDay)"
    using y100 y(2) m d by (intro civil_time_valid)
  finally have e: "Date_UTC (getUTCFullYear (Date t)) (getUTCMonth (Date t)) (getUTCDate (Date t)) =
      Date (MakeDay y m d * msPerDay)" .
  note md = min_day_in_month [OF d(1), of "y - 3" m]
  have s: "subtractYears (Date (MakeDay y m d * msPerDay)) 3 =
      Date (MakeDay (y - 3) m (min d (DaysInMonth (y - 3) m)) * msPerDay)"
    using y m d by (rule subtractYears_civil)
  have f1: "toISODate (MakeDay y m d * msPerDay) = isoDate y (m + 1) d"
    using y m d by (intro toISODate_civil) simp_all
  have f2: "toISODate (MakeDay (y - 3) m (min d (DaysInMonth (y - 3) m)) * msPerDay) =
      isoDate (y - 3) (m + 1) (min d (DaysInMonth (y - 3) m))"
    using y m md by (intro toISODate_civil) simp_all
  have "getLastThreeYearsRange (Date t) =
      Inr \<lparr>range_start = isoDate (y - 3) (m + 1) (min d (DaysInMonth (y - 3) m)),
           range_end = isoDate y (m + 1) d\<rparr>"
    unfolding getLastThreeYearsRange_def e Let_def s formatDate_def
    by (simp add: f1 f2)
  then show ?thesis by (simp add: y_def m_def d_def)
qed

theorem last_three_years_range_witness:
  "103 \<le> YearFromTime 1709208000000 \<and> YearFromTime 1709208000000 \<le> 9999 \<and>
   getLastThreeYearsRange (Date 1709208000000) =
     Inr \<lparr>range_start = ''2021-02-28'', range_end = ''2024-02-29''\<rparr>"
proof -
  have y: "YearFromTime 1709208000000 = 2024"
    by (simp add: format_eval)
  have m: "MonthFromTime 1709208000000 = 1"
    by (simp add: format_eval)
  have d: "DateFromTime 1709208000000 = 29"
    by (simp add: format_eval)
  have h: "103 \<le> YearFromTime 1709208000000" "YearFromTime 1709208000000 \<le> 9999"
    by (simp_all add: y)
  have "DaysInMonth 2021 1 = 28"
    by (simp add: DaysInMonth_def monthLength_def InLeapYear_def DaysInYear_def)
  then show ?thesis
    using last_three_years_range [OF h] h
    by (simp add: y m d isoDate_def pad4_def pad2_def digitChar_def)
qed

text \<open>
  C9. The claim: \<^verbatim>\<open>addressOverlapsRange\<close> is true exactly when the parse, discard and clamp
  step of the Gap Engine keeps the address as a non-empty interval within the range. The
  two differ in both directions. An address that ended before the range starts is
  rejected by the filter and kept by the Gap Engine, clamped to the first day of the
  range: the callback of the Gap Engine has no test that the interval meets the range. An
  address whose end is before its start is accepted by the filter when it starts before
  the range ends and ends after the range starts, and dropped by the Gap Engine: the
  filter has no test that the end is not before the start.
\<close>

theorem overlap_filter_differs_from_gap_engine:
  "\<not> addressOverlapsRange decimalNumber ''2010-01-01'' (Some ''2011-01-01'')
       ''2021-01-01'' ''2022-01-01'' \<and>
   gapEngineKeeps decimalNumber (address_with_dates ''2010-01-01'' (Some ''2011-01-01''))
     \<lparr>range_start = ''2021-01-01'', range_end = ''2022-01-01''\<rparr> \<and>
   addressRange decimalNumber \<lparr>range_start = ''2021-01-01'', range_end = ''2022-01-01''\<rparr>
     (Date 1609459200000) (Date 1640995200000)
     (address_with_dates ''2010-01-01'' (Some ''2011-01-01'')) =
     Some \<lparr>iv_start = Date 1609459200000, iv_end = Date 1609459200000\<rparr> \<and>
   addressOverlapsRange decimalNumber ''2021-05-01'' (Some ''2021-03-01'')
     ''2021-01-01'' ''2022-01-01'' \<and>
   \<not> gapEngineKeeps decimalNumber (address_with_dates ''2021-05-01'' (Some ''2021-03-01''))
     \<lparr>range_start = ''2021-01-01'', range_end = ''2022-01-01''\<rparr>"
  by (simp add: addressOverlapsRange_def gapEngineKeeps_def addressRange_def
      address_with_dates_def parse_2010_01_01 parse_2011_01_01 parse_2021_01_01
      parse_2022_01_01 parse_2021_05_01 parse_2021_03_01
      date_le_def date_ge_def date_lt_def date_gt_def clampDate_def)

text \<open>
  C10. The claim: for a malformed query range, one whose start or end fails to parse or
  whose parsed end precedes its parsed start, \<^verbatim>\<open>getCoverageGaps\<close> returns the empty list for
  every address list. It does so when \<^verbatim>\<open>parseDate\<close> returns \<^verbatim>\<open>null\<close> for a bound and when
  the end is before the start (\<open>null_or_inverted_range_no_gaps\<close>). A bound that fails to
  parse into an Invalid Date passes the guard, which tests for \<^verbatim>\<open>null\<close> and compares. With
  the bound \<^verbatim>\<open>300000-01-01\<close> as start or as end, the empty address list gives the whole
  range as one gap; with it as start, a list of one address gives a trailing gap.
\<close>

theorem invalid_date_range_passes_guard:
  "parseDate decimalNumber ''300000-01-01'' = Some InvalidDate \<and>
   getCoverageGaps decimalNumber []
     \<lparr>range_start = ''300000-01-01'', range_end = ''2022-01-01''\<rparr> =
     Inr [\<lparr>gap_start = ''300000-01-01'', gap_end = ''2022-01-01'',
           isLeading = True, isTrailing = True\<rparr>] \<and>
   getCoverageGaps decimalNumber []
     \<lparr>range_start = ''2021-01-01'', range_end = ''300000-01-01''\<rparr> =
     Inr [\<lparr>gap_start = ''2021-01-01'', gap_end = ''300000-01-01'',
           isLeading = True, isTrailing = True\<rparr>] \<and>
   getCoverageGaps decimalNumber [address_with_dates ''2021-01-01'' (Some ''2021-03-01'')]
     \<lparr>range_start = ''300000-01-01'', range_end = ''2022-01-01''\<rparr> =
     Inr [\<lparr>gap_start = ''2021-03-02'', gap_end = ''2022-01-01'',
           isLeading = False, isTrailing = True\<rparr>]"
proof -
  have p: "parseDate decimalNumber ''300000-01-01'' = Some InvalidDate"
    by (rule parse_300000_01_01)
  have s: "getCoverageGaps decimalNumber []
     \<lparr>range_start = ''300000-01-01'', range_end = ''2022-01-01''\<rparr> =
     Inr [\<lparr>gap_start = ''300000-01-01'', gap_end = ''2022-01-01'',
           isLeading = True, isTrailing = True\<rparr>]"
    by (simp add: gaps_eval parse_eval)
  have e: "getCoverageGaps decimalNumber []
     \<lparr>range_start = ''2021-01-01'', range_end = ''300000-01-01''\<rparr> =
     Inr [\<lparr>gap_start = ''2021-01-01'', gap_end = ''300000-01-01'',
           isLeading = True, isTrailing = True\<rparr>]"
    by (simp add: gaps_eval parse_eval)
  have a: "getCoverageGaps decimalNumber [address_with_dates ''2021-01-01'' (Some ''2021-03-01'')]
     \<lparr>range_start = ''300000-01-01'', range_end = ''2022-01-01''\<rparr> =
     Inr [\<lparr>gap_start = ''2021-03-02'', gap_end = ''2022-01-01'',
           isLeading = False, isTrailing = True\<rparr>]"
    by (simp add: gaps_eval parse_eval format_eval)
  from p s e a show ?thesis by blast
qed

end
